theory Spec2Isabelle
  imports Main "HOL-Library.Word"
begin

section \<open>The hardware isolation record manager\<close>

text \<open>
  The functions of \<open>hw_isolation::record::Manager\<close> (manager.cpp), each under its own name, over a
  state that holds the members of the manager and what it acts upon.
\<close>

subsection \<open>Data\<close>

text \<open>
  An entity path (\<open>openpower_guard::EntityPath\<close>) and its raw form
  (\<open>devtree::DevTreePhysPath\<close>, a byte vector) carry the same bytes; the conversions
  between them (\<open>convertEntityPathIntoRawData\<close> and the \<open>EntityPath(data, size)\<close>
  constructor) are the identity here.
\<close>

type_synonym EntityPath = "8 word list"
type_synonym EntryRecordId = "32 word"
type_synonym object_path = string

text \<open>Modelled from the spec: the severity enumeration of the entry interface (section 3).\<close>

datatype EntrySeverity = Critical | Warning | Manual

datatype PowerState = Off | On | TransitioningToOff | TransitioningToOn

record GuardRecord =
  recordId :: "32 word"
  targetId :: EntityPath
  elogId :: "32 word"
  errType :: "8 word"

type_synonym AssociationDef = "(string \<times> string \<times> string) list"

text \<open>Modelled from the spec: the fields of an Entry (section 3); the class is in entry.cpp.\<close>

record Entry =
  entryRecId :: "32 word"
  severity :: EntrySeverity
  resolved :: bool
  associations :: AssociationDef
  entityPath :: EntityPath
  elapsed :: nat

text \<open>
  Exceptions. The first four are the \<open>CommonError\<close>s the manager throws itself;
  \<open>SdBusError\<close> is the only one \<open>getEID\<close> catches; \<open>StdInvalidArgument\<close> and
  \<open>StdOutOfRange\<close> are what \<open>std::stoi\<close> throws; \<open>NoPendingTimer\<close> stands for
  \<open>front()\<close> on an empty queue, which C++ leaves undefined.
\<close>

datatype exn =
    Unavailable | NotAllowed | InvalidArgument | InternalFailure
  | SdBusError | StdInvalidArgument | StdOutOfRange | OtherException
  | NoPendingTimer

text \<open>The messages of the \<open>log\<close> calls, one constructor for each call site.\<close>

datatype logmsg =
    SerializeEcoCoresFailed
  | GetEIDFailed object_path
  | CreateEntryFailed
  | IsolationSettingDisabled
  | ManualNeedsChassisOff
  | InvalidIsolateHardware
  | InvalidBmcErrorLog object_path
  | InvalidSeverity
  | DeleteEntryFailed "32 word"
  | SkipNoInventoryPath EntityPath
  | SkipNoBmcLogPath EntityPath "32 word"
  | SkipNoSeverity EntityPath "8 word"
  | SkipCreateFailed EntityPath
  | ProcessRecordFileFailed
  | MoreThanOneValidRecord EntityPath

text \<open>What the manager does to its collaborators, in the order it does it.\<close>

datatype event =
    Log logmsg
  | GuardGetAll
  | GuardCreate EntityPath "32 word" "8 word"
  | GuardClear "32 word"
  | CatalogPhysicalPath object_path
  | CatalogInventoryPath EntityPath bool
  | BmcLogPath "32 word"
  | SetEnabled string bool
  | EntryResolved "32 word" bool
  | EntrySerialized "32 word"
  | ManagerSerialize

record Timer =
  timerInterval :: nat
  timerEnabled :: bool

text \<open>
  The collaborators the manager calls and whose code is elsewhere: the guard store
  (\<open>openpower_guard\<close>, over a store of any type \<open>'g\<close>), the catalog
  (\<open>IsolatableHWs\<close>), the severity tables, the error-log service, the policy sources,
  \<open>object_path::filename\<close>, the root of the entry object paths, and the places where
  the source expects an exception: the constructor of an Entry and its \<open>resolveEntry\<close>,
  and the archive of \<open>serialize\<close>. The lookups return a value or nothing and
  \<open>setEnabledProperty\<close> is an event only: they are taken not to raise.
  \<open>getInventoryPath\<close> takes the eco-core flag by reference: it reads the flag it is
  given and, with the inventory path, gives back the flag as the catalog has set it, which
  is what the callers then hand to \<open>updateEcoCoresList\<close>.
\<close>

record 'g env =
  guard_getAll :: "'g \<Rightarrow> GuardRecord list"
  guard_create :: "'g \<Rightarrow> EntityPath \<Rightarrow> 32 word \<Rightarrow> 8 word \<Rightarrow> exn + (GuardRecord \<times> 'g)"
  guard_clear :: "'g \<Rightarrow> 32 word \<Rightarrow> 'g"
  getPhysicalPath :: "object_path \<Rightarrow> EntityPath option"
  getInventoryPath :: "EntityPath \<Rightarrow> bool \<Rightarrow> (object_path \<times> bool) option"
  getGuardType :: "EntrySeverity \<Rightarrow> 8 word option"
  getEntrySeverityType :: "8 word \<Rightarrow> EntrySeverity option"
  getBMCLogPath :: "32 word \<Rightarrow> object_path option"
  isHwIosolationSettingEnabled :: bool
  chassisPowerState :: PowerState
  loggingServiceName :: "exn + string"
  getPELIdFromBMCLogId :: "32 word \<Rightarrow> exn + 32 word"
  filename :: "object_path \<Rightarrow> string"
  entryObjPathRoot :: string
  entryCtorRaises :: "32 word \<Rightarrow> bool"
  resolveRaises :: "32 word \<Rightarrow> bool"
  cerealRaises :: bool

text \<open>
  The manager's members (\<open>_isolatedHardwares\<close>, a \<open>std::map\<close> kept as a list of
  pairs in key order; \<open>_persistedEcoCores\<close>, a \<open>std::set\<close> kept as a list without
  repetition; \<open>_timerObjs\<close>, a \<open>std::queue\<close>), the guard store, the file of the
  eco cores, the names of the files in the directory of the entries, and the events so
  far. The functions that read the clock take its reading as the argument \<open>now\<close>.
\<close>

record 'g state =
  isolatedHardwares :: "(32 word \<times> Entry) list"
  persistedEcoCores :: "EntityPath list"
  timerObjs :: "Timer list"
  guardStore :: 'g
  ecoCoresFile :: "EntityPath list option"
  entryFiles :: "string list"
  events :: "event list"

definition emit :: "event \<Rightarrow> 'g state \<Rightarrow> 'g state" where
  "emit ev st = st\<lparr>events := events st @ [ev]\<rparr>"

subsection \<open>The map of entries\<close>

text \<open>
  \<open>std::map::insert\<close>: a key already there keeps its value, a new key goes to its
  place in the order of the keys.
\<close>

definition map_insert :: "32 word \<Rightarrow> Entry \<Rightarrow> (32 word \<times> Entry) list \<Rightarrow> (32 word \<times> Entry) list" where
  "map_insert k v xs = (if k \<in> fst ` set xs then xs else insort_key fst (k, v) xs)"

definition map_erase :: "32 word \<Rightarrow> (32 word \<times> Entry) list \<Rightarrow> (32 word \<times> Entry) list" where
  "map_erase k xs = filter (\<lambda>p. fst p \<noteq> k) xs"

definition map_modify :: "32 word \<Rightarrow> (Entry \<Rightarrow> Entry) \<Rightarrow> (32 word \<times> Entry) list \<Rightarrow> (32 word \<times> Entry) list" where
  "map_modify k f xs = map (\<lambda>p. if fst p = k then (fst p, f (snd p)) else p) xs"

subsection \<open>Strings\<close>

definition isspace :: "char \<Rightarrow> bool" where
  "isspace c = (c \<in> set [CHR '' '', CHR 0x09, CHR 0x0A, CHR 0x0B, CHR 0x0C, CHR 0x0D])"

definition isdigit :: "char \<Rightarrow> bool" where
  "isdigit c = (c \<in> set ''0123456789'')"

definition digit_value :: "char \<Rightarrow> int" where
  "digit_value c = int (of_char c) - 48"

definition digits_value :: "string \<Rightarrow> int" where
  "digits_value ds = foldl (\<lambda>a c. 10 * a + digit_value c) 0 ds"

text \<open>
  \<open>std::stoi\<close> in base 10: leading white space is skipped, one sign is read, then the
  digits; no digit is \<open>std::invalid_argument\<close>, a value outside \<open>int\<close> is
  \<open>std::out_of_range\<close>, and what follows the digits is ignored.
\<close>

definition stoi :: "string \<Rightarrow> exn + int" where
  "stoi s =
     (let s1 = dropWhile isspace s;
          neg = (case s1 of [] \<Rightarrow> False | c # _ \<Rightarrow> c = CHR ''-'');
          s2 = (case s1 of [] \<Rightarrow> []
                | c # r \<Rightarrow> if c = CHR ''-'' \<or> c = CHR ''+'' then r else s1);
          ds = takeWhile isdigit s2
      in if ds = [] then Inl StdInvalidArgument
         else let v = (if neg then - digits_value ds else digits_value ds)
              in if v < - (2 ^ 31) \<or> 2 ^ 31 - 1 < v then Inl StdOutOfRange else Inr v)"

text \<open>
  \<open>std::stoul\<close> in base 10, on a 64-bit \<open>unsigned long\<close>: as \<open>std::stoi\<close>, but the
  range is that of the unsigned type and a minus sign negates within it.
\<close>

definition stoul :: "string \<Rightarrow> exn + nat" where
  "stoul s =
     (let s1 = dropWhile isspace s;
          neg = (case s1 of [] \<Rightarrow> False | c # _ \<Rightarrow> c = CHR ''-'');
          s2 = (case s1 of [] \<Rightarrow> []
                | c # r \<Rightarrow> if c = CHR ''-'' \<or> c = CHR ''+'' then r else s1);
          ds = takeWhile isdigit s2
      in if ds = [] then Inl StdInvalidArgument
         else let v = nat (digits_value ds)
              in if 2 ^ 64 - 1 < v then Inl StdOutOfRange
                 else Inr (if neg then (2 ^ 64 - v) mod 2 ^ 64 else v))"

text \<open>The last component of an object path, as \<open>filename\<close> gives it for a plain name.\<close>

definition last_component :: "object_path \<Rightarrow> string" where
  "last_component p = rev (takeWhile (\<lambda>c. c \<noteq> CHR ''/'') (rev p))"

function to_string :: "nat \<Rightarrow> string" where
  "to_string n =
     (if n < 10 then [''0123456789'' ! n]
      else to_string (n div 10) @ [''0123456789'' ! (n mod 10)])"
  by pat_completeness auto
termination
  by (relation "measure id") auto

declare to_string.simps [simp del]

subsection \<open>The eco cores\<close>

definition serialize :: "'g env \<Rightarrow> 'g state \<Rightarrow> 'g state" where
  "serialize env st =
     (let st1 = emit ManagerSerialize st in
      if persistedEcoCores st1 = [] then st1\<lparr>ecoCoresFile := None\<rparr>
      else if cerealRaises env
        then (emit (Log SerializeEcoCoresFailed) st1)\<lparr>ecoCoresFile := None\<rparr>
        else st1\<lparr>ecoCoresFile := Some (persistedEcoCores st1)\<rparr>)"

definition updateEcoCoresList :: "'g env \<Rightarrow> bool \<Rightarrow> EntityPath \<Rightarrow> 'g state \<Rightarrow> 'g state" where
  "updateEcoCoresList env ecoCore coreDevTreePhysPath st =
     serialize env
       (if ecoCore
        then st\<lparr>persistedEcoCores :=
                  (if coreDevTreePhysPath \<in> set (persistedEcoCores st) then persistedEcoCores st
                   else persistedEcoCores st @ [coreDevTreePhysPath])\<rparr>
        else st\<lparr>persistedEcoCores := removeAll coreDevTreePhysPath (persistedEcoCores st)\<rparr>)"

subsection \<open>The error-log id\<close>

text \<open>
  \<open>getEID\<close>: the \<open>try\<close> block looks the logging service up, parses the file name of
  the path with \<open>std::stoi\<close> and calls the service; the handler catches
  \<open>SdBusError\<close> only, so any other exception leaves the function.
\<close>

definition getEID :: "'g env \<Rightarrow> object_path \<Rightarrow> 'g state \<Rightarrow> (exn + 32 word option) \<times> 'g state" where
  "getEID env bmcErrorLog st =
     (case loggingServiceName env of
        Inl x \<Rightarrow>
          if x = SdBusError then (Inr None, emit (Log (GetEIDFailed bmcErrorLog)) st)
          else (Inl x, st)
      | Inr svc \<Rightarrow>
          (case stoi (filename env bmcErrorLog) of
             Inl x \<Rightarrow> (Inl x, st)
           | Inr n \<Rightarrow>
               (case getPELIdFromBMCLogId env (word_of_int n) of
                  Inl x \<Rightarrow>
                    if x = SdBusError then (Inr None, emit (Log (GetEIDFailed bmcErrorLog)) st)
                    else (Inl x, st)
                | Inr eid \<Rightarrow> (Inr (Some eid), st))))"

subsection \<open>Entries\<close>

definition isValidRecord :: "32 word \<Rightarrow> bool" where
  "isValidRecord recId = (if recId \<noteq> 0xFFFFFFFF then True else False)"

definition entryObjPath :: "'g env \<Rightarrow> 32 word \<Rightarrow> object_path" where
  "entryObjPath env recId = entryObjPathRoot env @ ''/'' @ to_string (unat recId)"

text \<open>
  The association list that \<open>createEntry\<close>, \<open>updateEntry\<close> and
  \<open>updateEntryForRecord\<close> each build: the isolated hardware, then the error log if its
  path is not empty.
\<close>

definition associationDeftoHw :: "string \<Rightarrow> string \<Rightarrow> AssociationDef" where
  "associationDeftoHw isolatedHardware bmcErrorLog =
     (''isolated_hw'', ''isolated_hw_entry'', isolatedHardware) #
     (if bmcErrorLog \<noteq> [] then [(''isolated_hw_errorlog'', ''isolated_hw_entry'', bmcErrorLog)]
      else [])"

text \<open>
  \<open>createEntry\<close>. What raises inside its \<open>try\<close> block is the construction of the
  Entry (\<open>entryCtorRaises\<close>), before the insertion; the handler logs, clears the guard
  record if \<open>deleteRecord\<close> is set, and the function returns nothing.
  Modelled from the spec: the constructor of Entry (entry.cpp) stores the fields it is
  given and the time of creation (section 3).
\<close>

definition createEntry ::
  "'g env \<Rightarrow> nat \<Rightarrow> 32 word \<Rightarrow> bool \<Rightarrow> EntrySeverity \<Rightarrow> string \<Rightarrow> string \<Rightarrow> bool \<Rightarrow> EntityPath
     \<Rightarrow> 'g state \<Rightarrow> object_path option \<times> 'g state" where
  "createEntry env now recId res sev isolatedHardware bmcErrorLog deleteRecord path st =
     (if entryCtorRaises env recId then
        (let st1 = emit (Log CreateEntryFailed) st in
         (None,
          if deleteRecord
          then (emit (GuardClear recId) st1)\<lparr>guardStore := guard_clear env (guardStore st1) recId\<rparr>
          else st1))
      else
        (Some (entryObjPath env recId),
         emit (SetEnabled isolatedHardware res)
           (st\<lparr>isolatedHardwares :=
                 map_insert recId
                   \<lparr>entryRecId = recId, severity = sev, resolved = res,
                    associations = associationDeftoHw isolatedHardware bmcErrorLog,
                    entityPath = path, elapsed = now\<rparr>
                   (isolatedHardwares st)\<rparr>)))"

text \<open>
  The two setters and the refresh of the time stamp, as \<open>updateEntry\<close> and
  \<open>updateEntryForRecord\<close> both write them: a field is set when it differs, and the
  time stamp is set when one of them was.
\<close>

definition setSeverityAndAssociations :: "EntrySeverity \<Rightarrow> AssociationDef \<Rightarrow> Entry \<Rightarrow> Entry" where
  "setSeverityAndAssociations sev assoc e =
     (let e1 = (if severity e \<noteq> sev then e\<lparr>severity := sev\<rparr> else e)
      in if associations e1 \<noteq> assoc then e1\<lparr>associations := assoc\<rparr> else e1)"

definition updated :: "EntrySeverity \<Rightarrow> AssociationDef \<Rightarrow> Entry \<Rightarrow> bool" where
  "updated sev assoc e = (severity e \<noteq> sev \<or> associations e \<noteq> assoc)"

definition setElapsedIfUpdated :: "bool \<Rightarrow> nat \<Rightarrow> Entry \<Rightarrow> Entry" where
  "setElapsedIfUpdated u now e = (if u then e\<lparr>elapsed := now\<rparr> else e)"

definition updateEntry ::
  "'g env \<Rightarrow> nat \<Rightarrow> 32 word \<Rightarrow> EntrySeverity \<Rightarrow> string \<Rightarrow> string \<Rightarrow> EntityPath
     \<Rightarrow> 'g state \<Rightarrow> (bool \<times> object_path) \<times> 'g state" where
  "updateEntry env now recId sev isolatedHwDbusObjPath bmcErrorLog path st =
     (case find (\<lambda>p. entityPath (snd p) = path \<and> entryRecId (snd p) = recId)
             (isolatedHardwares st) of
        None \<Rightarrow> ((False, []), st)
      | Some (k, e) \<Rightarrow>
          (let assoc = associationDeftoHw isolatedHwDbusObjPath bmcErrorLog;
               u = updated sev assoc e
           in ((True, entryObjPath env k),
               emit (EntrySerialized k)
                 (st\<lparr>isolatedHardwares :=
                       map_modify k
                         (\<lambda>e. setElapsedIfUpdated u now (setSeverityAndAssociations sev assoc e))
                         (isolatedHardwares st)\<rparr>))))"

subsection \<open>The creation interface\<close>

definition isHwIsolationAllowed :: "'g env \<Rightarrow> EntrySeverity \<Rightarrow> 'g state \<Rightarrow> exn option \<times> 'g state" where
  "isHwIsolationAllowed env sev st =
     (if \<not> isHwIosolationSettingEnabled env
      then (Some Unavailable, emit (Log IsolationSettingDisabled) st)
      else if sev = Manual
      then (if chassisPowerState env \<noteq> Off
            then (Some NotAllowed, emit (Log ManualNeedsChassisOff) st)
            else (None, st))
      else (None, st))"

text \<open>
  The last statements of the three create functions: update the entry of this record and
  hardware if there is one, else create it, asking \<open>createEntry\<close> to clear the record
  if that fails.
\<close>

definition updateOrCreateEntry ::
  "'g env \<Rightarrow> nat \<Rightarrow> GuardRecord \<Rightarrow> EntrySeverity \<Rightarrow> string \<Rightarrow> string
     \<Rightarrow> 'g state \<Rightarrow> (exn + object_path) \<times> 'g state" where
  "updateOrCreateEntry env now guardRecord sev isolateHardware bmcErrorLog st =
     (case updateEntry env now (recordId guardRecord) sev isolateHardware bmcErrorLog
             (targetId guardRecord) st of
        ((True, p), st1) \<Rightarrow> (Inr p, st1)
      | ((False, _), st1) \<Rightarrow>
          (case createEntry env now (recordId guardRecord) False sev isolateHardware bmcErrorLog
                  True (targetId guardRecord) st1 of
             (None, st2) \<Rightarrow> (Inl InternalFailure, st2)
           | (Some p, st2) \<Rightarrow> (Inr p, st2)))"

definition guardCreate ::
  "'g env \<Rightarrow> EntityPath \<Rightarrow> 32 word \<Rightarrow> 8 word \<Rightarrow> 'g state \<Rightarrow> (exn + GuardRecord) \<times> 'g state" where
  "guardCreate env path eId guardType st =
     (let st1 = emit (GuardCreate path eId guardType) st in
      case guard_create env (guardStore st1) path eId guardType of
        Inl x \<Rightarrow> (Inl x, st1)
      | Inr (guardRecord, g) \<Rightarrow> (Inr guardRecord, st1\<lparr>guardStore := g\<rparr>))"

definition create ::
  "'g env \<Rightarrow> nat \<Rightarrow> object_path \<Rightarrow> EntrySeverity \<Rightarrow> 'g state \<Rightarrow> (exn + object_path) \<times> 'g state" where
  "create env now isolateHardware sev st =
     (case isHwIsolationAllowed env sev st of
        (Some x, st1) \<Rightarrow> (Inl x, st1)
      | (None, st1) \<Rightarrow>
          (let st2 = emit (CatalogPhysicalPath isolateHardware) st1 in
           case getPhysicalPath env isolateHardware of
             None \<Rightarrow> (Inl InvalidArgument, emit (Log InvalidIsolateHardware) st2)
           | Some devTreePhysicalPath \<Rightarrow>
               (case getGuardType env sev of
                  None \<Rightarrow> (Inl InvalidArgument, emit (Log InvalidSeverity) st2)
                | Some guardType \<Rightarrow>
                    (case guardCreate env devTreePhysicalPath 0 guardType st2 of
                       (Inl x, st3) \<Rightarrow> (Inl x, st3)
                     | (Inr guardRecord, st3) \<Rightarrow>
                         updateOrCreateEntry env now guardRecord sev isolateHardware [] st3))))"

definition createWithErrorLog ::
  "'g env \<Rightarrow> nat \<Rightarrow> object_path \<Rightarrow> EntrySeverity \<Rightarrow> object_path
     \<Rightarrow> 'g state \<Rightarrow> (exn + object_path) \<times> 'g state" where
  "createWithErrorLog env now isolateHardware sev bmcErrorLog st =
     (case isHwIsolationAllowed env sev st of
        (Some x, st1) \<Rightarrow> (Inl x, st1)
      | (None, st1) \<Rightarrow>
          (let st2 = emit (CatalogPhysicalPath isolateHardware) st1 in
           case getPhysicalPath env isolateHardware of
             None \<Rightarrow> (Inl InvalidArgument, emit (Log InvalidIsolateHardware) st2)
           | Some devTreePhysicalPath \<Rightarrow>
               (case getEID env bmcErrorLog st2 of
                  (Inl x, st3) \<Rightarrow> (Inl x, st3)
                | (Inr None, st3) \<Rightarrow>
                    (Inl InvalidArgument, emit (Log (InvalidBmcErrorLog bmcErrorLog)) st3)
                | (Inr (Some eId), st3) \<Rightarrow>
                    (case getGuardType env sev of
                       None \<Rightarrow> (Inl InvalidArgument, emit (Log InvalidSeverity) st3)
                     | Some guardType \<Rightarrow>
                         (case guardCreate env devTreePhysicalPath eId guardType st3 of
                            (Inl x, st4) \<Rightarrow> (Inl x, st4)
                          | (Inr guardRecord, st4) \<Rightarrow>
                              updateOrCreateEntry env now guardRecord sev isolateHardware
                                bmcErrorLog st4)))))"

definition createWithEntityPath ::
  "'g env \<Rightarrow> nat \<Rightarrow> EntityPath \<Rightarrow> EntrySeverity \<Rightarrow> object_path
     \<Rightarrow> 'g state \<Rightarrow> (exn + object_path) \<times> 'g state" where
  "createWithEntityPath env now path sev bmcErrorLog st =
     (case isHwIsolationAllowed env sev st of
        (Some x, st1) \<Rightarrow> (Inl x, st1)
      | (None, st1) \<Rightarrow>
          (let st2 = emit (CatalogInventoryPath path False) st1 in
           case getInventoryPath env path False of
             None \<Rightarrow> (Inl InvalidArgument, emit (Log InvalidIsolateHardware) st2)
           | Some (isolateHwInventoryPath, ecoCore) \<Rightarrow>
               (case getEID env bmcErrorLog (updateEcoCoresList env ecoCore path st2) of
                  (Inl x, st3) \<Rightarrow> (Inl x, st3)
                | (Inr None, st3) \<Rightarrow>
                    (Inl InvalidArgument, emit (Log (InvalidBmcErrorLog bmcErrorLog)) st3)
                | (Inr (Some eId), st3) \<Rightarrow>
                    (case getGuardType env sev of
                       None \<Rightarrow> (Inl InvalidArgument, emit (Log InvalidSeverity) st3)
                     | Some guardType \<Rightarrow>
                         (case guardCreate env path eId guardType st3 of
                            (Inl x, st4) \<Rightarrow> (Inl x, st4)
                          | (Inr guardRecord, st4) \<Rightarrow>
                              updateOrCreateEntry env now guardRecord sev
                                isolateHwInventoryPath bmcErrorLog st4)))))"

subsection \<open>Resolution\<close>

definition eraseEntry :: "'g env \<Rightarrow> 32 word \<Rightarrow> 'g state \<Rightarrow> 'g state" where
  "eraseEntry env entryRecordId st =
     (let st1 = (case map_of (isolatedHardwares st) entryRecordId of
                   Some e \<Rightarrow> updateEcoCoresList env False (entityPath e) st
                 | None \<Rightarrow> st)
      in st1\<lparr>isolatedHardwares := map_erase entryRecordId (isolatedHardwares st1)\<rparr>)"

text \<open>
  Modelled from the spec: \<open>Entry::resolveEntry\<close> (entry.cpp). Section 4.4: the
  operation marks the record resolved, tells the guard store to clear the underlying record
  if asked to, and is idempotent; section 3: an Entry is destroyed when it is resolved,
  which is the manager's \<open>eraseEntry\<close>; section 4.2: resolving an entry may fail
  (\<open>resolveRaises\<close>), and then nothing has been done.
\<close>

definition resolveEntry :: "'g env \<Rightarrow> bool \<Rightarrow> 32 word \<Rightarrow> 'g state \<Rightarrow> exn option \<times> 'g state" where
  "resolveEntry env clearRecord k st =
     (case map_of (isolatedHardwares st) k of
        None \<Rightarrow> (None, st)
      | Some e \<Rightarrow>
          if resolved e then (None, st)
          else if resolveRaises env k then (Some OtherException, st)
          else
            (let st1 = (if clearRecord
                        then (emit (GuardClear (entryRecId e)) st)
                               \<lparr>guardStore := guard_clear env (guardStore st) (entryRecId e)\<rparr>
                        else st)
             in (None, eraseEntry env k (emit (EntryResolved k clearRecord) st1))))"

text \<open>The loop of \<open>resolveAllEntries\<close>, over the keys the map has when it starts.\<close>

fun resolveEntries :: "'g env \<Rightarrow> bool \<Rightarrow> 32 word list \<Rightarrow> 'g state \<Rightarrow> 'g state" where
  "resolveEntries env clearRecord [] st = st"
| "resolveEntries env clearRecord (k # ks) st =
     (case resolveEntry env clearRecord k st of
        (Some x, st1) \<Rightarrow> resolveEntries env clearRecord ks (emit (Log (DeleteEntryFailed k)) st1)
      | (None, st1) \<Rightarrow> resolveEntries env clearRecord ks st1)"

definition resolveAllEntries :: "'g env \<Rightarrow> bool \<Rightarrow> 'g state \<Rightarrow> 'g state" where
  "resolveAllEntries env clearRecord st =
     resolveEntries env clearRecord (map fst (isolatedHardwares st)) st"

subsection \<open>Entries from guard records\<close>

definition createEntryForRecord :: "'g env \<Rightarrow> nat \<Rightarrow> GuardRecord \<Rightarrow> bool \<Rightarrow> 'g state \<Rightarrow> 'g state" where
  "createEntryForRecord env now record isRestorePath st =
     (let entityPathRawData = targetId record;
          res = (recordId record = 0xFFFFFFFF);
          ecoCore = (entityPathRawData \<in> set (persistedEcoCores st) \<and> isRestorePath);
          st1 = emit (CatalogInventoryPath entityPathRawData ecoCore) st
      in case getInventoryPath env entityPathRawData ecoCore of
           None \<Rightarrow> emit (Log (SkipNoInventoryPath entityPathRawData)) st1
         | Some (isolatedHwInventoryPath, ecoCore1) \<Rightarrow>
             (let st2 = emit (BmcLogPath (elogId record))
                          (updateEcoCoresList env ecoCore1 entityPathRawData st1);
                  strBmcErrorLogPath =
                    (case getBMCLogPath env (elogId record) of
                       None \<Rightarrow> if \<not> isRestorePath then None else Some []
                     | Some p \<Rightarrow> Some p)
              in case strBmcErrorLogPath of
                   None \<Rightarrow> emit (Log (SkipNoBmcLogPath entityPathRawData (elogId record))) st2
                 | Some bmcErrorLog \<Rightarrow>
                     (case getEntrySeverityType env (errType record) of
                        None \<Rightarrow>
                          emit (Log (SkipNoSeverity entityPathRawData (errType record))) st2
                      | Some entrySeverity \<Rightarrow>
                          (case createEntry env now (recordId record) res entrySeverity
                                  isolatedHwInventoryPath bmcErrorLog False (targetId record) st2 of
                             (None, st3) \<Rightarrow> emit (Log (SkipCreateFailed entityPathRawData)) st3
                           | (Some p, st3) \<Rightarrow> st3))))"

text \<open>\<open>updateEntryForRecord\<close>, the entry being the one the iterator is at, of key \<open>k\<close>.\<close>

definition updateEntryForRecord :: "'g env \<Rightarrow> nat \<Rightarrow> GuardRecord \<Rightarrow> 32 word \<Rightarrow> 'g state \<Rightarrow> 'g state" where
  "updateEntryForRecord env now record k st =
     (let entityPathRawData = targetId record;
          st1 = emit (CatalogInventoryPath entityPathRawData False) st
      in case getInventoryPath env entityPathRawData False of
           None \<Rightarrow> emit (Log (SkipNoInventoryPath entityPathRawData)) st1
         | Some (isolatedHwInventoryPath, ecoCore) \<Rightarrow>
             (let st2 = emit (BmcLogPath (elogId record))
                          (updateEcoCoresList env ecoCore entityPathRawData st1)
              in case getBMCLogPath env (elogId record) of
                   None \<Rightarrow> emit (Log (SkipNoBmcLogPath entityPathRawData (elogId record))) st2
                 | Some bmcErrorLogPath \<Rightarrow>
                     (case getEntrySeverityType env (errType record) of
                        None \<Rightarrow>
                          emit (Log (SkipNoSeverity entityPathRawData (errType record))) st2
                      | Some entrySeverity \<Rightarrow>
                          (let assoc = associationDeftoHw isolatedHwInventoryPath bmcErrorLogPath;
                               st3 = st2\<lparr>isolatedHardwares :=
                                           map_modify k
                                             (\<lambda>e. setElapsedIfUpdated (updated entrySeverity assoc e) now
                                                    (setSeverityAndAssociations entrySeverity assoc e))
                                             (isolatedHardwares st2)\<rparr>
                           in emit (EntrySerialized k)
                                (emit (SetEnabled isolatedHwInventoryPath False) st3)))))"

subsection \<open>Cleaning up\<close>

text \<open>
  The loop of \<open>cleanupPersistedEcoCores\<close> over the eco cores the set has when it
  starts, with the flag \<open>updated\<close>.
\<close>

fun cleanupEcoCores :: "'g env \<Rightarrow> EntityPath list \<Rightarrow> bool \<times> 'g state \<Rightarrow> bool \<times> 'g state" where
  "cleanupEcoCores env [] (u, st) = (u, st)"
| "cleanupEcoCores env (ecoCore # rest) (u, st) =
     (if list_all (\<lambda>p. entityPath (snd p) \<noteq> ecoCore) (isolatedHardwares st)
      then cleanupEcoCores env rest (True, updateEcoCoresList env False ecoCore st)
      else cleanupEcoCores env rest (u, st))"

definition cleanupPersistedEcoCores :: "'g env \<Rightarrow> 'g state \<Rightarrow> 'g state" where
  "cleanupPersistedEcoCores env st =
     (let (u, st1) =
            (if isolatedHardwares st = [] then (True, st\<lparr>persistedEcoCores := []\<rparr>)
             else cleanupEcoCores env (persistedEcoCores st) (False, st))
      in if u then serialize env st1 else st1)"

text \<open>
  The loop of \<open>cleanupPersistedFiles\<close> over the files of the directory: the name is
  parsed by \<open>std::stoul\<close>, whose exception nothing catches, and the number is narrowed to
  the 32 bits of a key when it is looked up.
\<close>

fun deletePersistedEntryFileIfNotExist :: "string list \<Rightarrow> 'g state \<Rightarrow> exn option \<times> 'g state" where
  "deletePersistedEntryFileIfNotExist [] st = (None, st)"
| "deletePersistedEntryFileIfNotExist (file # files) st =
     (case stoul file of
        Inl x \<Rightarrow> (Some x, st)
      | Inr fileEntryId \<Rightarrow>
          deletePersistedEntryFileIfNotExist files
            (if (word_of_nat fileEntryId :: 32 word) \<notin> fst ` set (isolatedHardwares st)
             then st\<lparr>entryFiles := remove1 file (entryFiles st)\<rparr>
             else st))"

definition cleanupPersistedFiles :: "'g env \<Rightarrow> 'g state \<Rightarrow> exn option \<times> 'g state" where
  "cleanupPersistedFiles env st =
     (case deletePersistedEntryFileIfNotExist (entryFiles st) st of
        (Some x, st1) \<Rightarrow> (Some x, st1)
      | (None, st1) \<Rightarrow> (None, cleanupPersistedEcoCores env st1))"

subsection \<open>Restoring and reconciling\<close>

definition guardGetAll :: "'g env \<Rightarrow> 'g state \<Rightarrow> GuardRecord list" where
  "guardGetAll env st = guard_getAll env (guardStore st)"


text \<open>
  \<open>processHardwareIsolationRecordFile\<close>: a new timer of 5 seconds is put at the back of
  the queue; \<open>timerRaises\<close> says whether making it raised, which is logged.
\<close>

definition processHardwareIsolationRecordFile :: "bool \<Rightarrow> 'g state \<Rightarrow> 'g state" where
  "processHardwareIsolationRecordFile timerRaises st =
     (if timerRaises then emit (Log ProcessRecordFileFailed) st
      else st\<lparr>timerObjs := timerObjs st @ [\<lparr>timerInterval = 5, timerEnabled = True\<rparr>]\<rparr>)"

text \<open>
  The body of the loop over the entries in \<open>handleHostIsolatedHardwares\<close>. The loop
  runs over the keys the map has when it starts and finds the entry of each under its key;
  in the source the iterator holds the entry, so the case of a key that is no longer there
  does not arise.
\<close>

definition reconcileEntry ::
  "'g env \<Rightarrow> nat \<Rightarrow> GuardRecord list \<Rightarrow> 32 word \<Rightarrow> 'g state \<Rightarrow> exn option \<times> 'g state" where
  "reconcileEntry env now records k st =
     (case map_of (isolatedHardwares st) k of
        None \<Rightarrow> (None, st)
      | Some e \<Rightarrow>
          (let entryRecords = filter (\<lambda>record. entityPath e = targetId record) records
           in if entryRecords = [] then resolveEntry env False k st
              else
                (let validEntryRecords =
                       filter (\<lambda>record. isValidRecord (recordId record)) entryRecords
                 in if validEntryRecords = [] then resolveEntry env False k st
                    else if length validEntryRecords = 1
                    then (None, updateEntryForRecord env now (hd validEntryRecords) k st)
                    else (None, emit (Log (MoreThanOneValidRecord (entityPath e))) st))))"

fun reconcileEntries ::
  "'g env \<Rightarrow> nat \<Rightarrow> GuardRecord list \<Rightarrow> 32 word list \<Rightarrow> 'g state \<Rightarrow> exn option \<times> 'g state" where
  "reconcileEntries env now records [] st = (None, st)"
| "reconcileEntries env now records (k # ks) st =
     (case reconcileEntry env now records k st of
        (Some x, st1) \<Rightarrow> (Some x, st1)
      | (None, st1) \<Rightarrow> reconcileEntries env now records ks st1)"

definition createEntryIfNotExists :: "'g env \<Rightarrow> nat \<Rightarrow> GuardRecord \<Rightarrow> 'g state \<Rightarrow> 'g state" where
  "createEntryIfNotExists env now validRecord st =
     (if list_all (\<lambda>p. targetId validRecord \<noteq> entityPath (snd p)) (isolatedHardwares st)
      then createEntryForRecord env now validRecord False st
      else st)"

text \<open>
  \<open>handleHostIsolatedHardwares\<close>, the callback of every timer: the front timer leaves
  the queue, then the entries are reconciled with the records of the guard store.
\<close>

definition handleHostIsolatedHardwares :: "'g env \<Rightarrow> nat \<Rightarrow> 'g state \<Rightarrow> exn option \<times> 'g state" where
  "handleHostIsolatedHardwares env now st =
     (case timerObjs st of
        [] \<Rightarrow> (Some NoPendingTimer, st)
      | timerObj # timers \<Rightarrow>
          (let st1 = emit GuardGetAll (st\<lparr>timerObjs := timers\<rparr>);
               records = guardGetAll env st1
           in if records = [] \<and> isolatedHardwares st1 \<noteq> []
              then (None, (resolveAllEntries env False st1)\<lparr>isolatedHardwares := []\<rparr>)
              else
                (case reconcileEntries env now records (map fst (isolatedHardwares st1)) st1 of
                   (Some x, st2) \<Rightarrow> (Some x, st2)
                 | (None, st2) \<Rightarrow>
                     (None,
                      cleanupPersistedEcoCores env
                        (fold (createEntryIfNotExists env now)
                           (filter (\<lambda>record. isValidRecord (recordId record)) records) st2)))))"

subsection \<open>Notions the statements use\<close>

text \<open>An entity path is isolated when some entry of the map carries it.\<close>

definition isolated :: "'g state \<Rightarrow> EntityPath \<Rightarrow> bool" where
  "isolated st p = (\<exists>q \<in> set (isolatedHardwares st). entityPath (snd q) = p)"

text \<open>
  The events that resolving entries without clearing their records can cause: an entry
  resolved with \<open>clearRecord\<close> false, the eco cores serialized, and the log lines of a
  failed serialization or resolution.
\<close>

fun resolutionEvent :: "event \<Rightarrow> bool" where
  "resolutionEvent (EntryResolved k c) = (\<not> c)"
| "resolutionEvent ManagerSerialize = True"
| "resolutionEvent (Log SerializeEcoCoresFailed) = True"
| "resolutionEvent (Log (DeleteEntryFailed k)) = True"
| "resolutionEvent _ = False"



subsection \<open>The pass on the entries alone\<close>

text \<open>
  What the pass does to the map depends on the environment, the clock, the records and
  the map only. The functions below are the ones above with the rest of the state
  left out; the lemmas of the next section show that they compute the map of the entries
  that the functions above leave.
\<close>

text \<open>
  The severity and the associations that \<open>updateEntryForRecord\<close> and, in a pass,
  \<open>createEntryForRecord\<close> find for a record, or nothing when a lookup fails.
\<close>

definition recordFields :: "'g env \<Rightarrow> GuardRecord \<Rightarrow> (EntrySeverity \<times> AssociationDef) option" where
  "recordFields env record =
     (case getInventoryPath env (targetId record) False of
        None \<Rightarrow> None
      | Some (isolatedHwInventoryPath, ecoCore) \<Rightarrow>
          (case getBMCLogPath env (elogId record) of
             None \<Rightarrow> None
           | Some bmcErrorLogPath \<Rightarrow>
               (case getEntrySeverityType env (errType record) of
                  None \<Rightarrow> None
                | Some entrySeverity \<Rightarrow>
                    Some (entrySeverity,
                          associationDeftoHw isolatedHwInventoryPath bmcErrorLogPath))))"

definition refresh :: "EntrySeverity \<Rightarrow> AssociationDef \<Rightarrow> nat \<Rightarrow> Entry \<Rightarrow> Entry" where
  "refresh sev assoc now e =
     setElapsedIfUpdated (updated sev assoc e) now (setSeverityAndAssociations sev assoc e)"

definition entryOfRecord :: "nat \<Rightarrow> GuardRecord \<Rightarrow> EntrySeverity \<Rightarrow> AssociationDef \<Rightarrow> Entry" where
  "entryOfRecord now record sev assoc =
     \<lparr>entryRecId = recordId record, severity = sev, resolved = (recordId record = 0xFFFFFFFF),
      associations = assoc, entityPath = targetId record, elapsed = now\<rparr>"

definition resolveEntryE ::
  "'g env \<Rightarrow> 32 word \<Rightarrow> (32 word \<times> Entry) list \<Rightarrow> exn option \<times> (32 word \<times> Entry) list" where
  "resolveEntryE env k es =
     (case map_of es k of
        None \<Rightarrow> (None, es)
      | Some e \<Rightarrow>
          if resolved e then (None, es)
          else if resolveRaises env k then (Some OtherException, es)
          else (None, map_erase k es))"

definition updateEntryForRecordE ::
  "'g env \<Rightarrow> nat \<Rightarrow> GuardRecord \<Rightarrow> 32 word \<Rightarrow> (32 word \<times> Entry) list \<Rightarrow> (32 word \<times> Entry) list" where
  "updateEntryForRecordE env now record k es =
     (case recordFields env record of
        None \<Rightarrow> es
      | Some (sev, assoc) \<Rightarrow> map_modify k (refresh sev assoc now) es)"

definition reconcileEntryE ::
  "'g env \<Rightarrow> nat \<Rightarrow> GuardRecord list \<Rightarrow> 32 word \<Rightarrow> (32 word \<times> Entry) list
     \<Rightarrow> exn option \<times> (32 word \<times> Entry) list" where
  "reconcileEntryE env now records k es =
     (case map_of es k of
        None \<Rightarrow> (None, es)
      | Some e \<Rightarrow>
          (let entryRecords = filter (\<lambda>record. entityPath e = targetId record) records
           in if entryRecords = [] then resolveEntryE env k es
              else
                (let validEntryRecords =
                       filter (\<lambda>record. isValidRecord (recordId record)) entryRecords
                 in if validEntryRecords = [] then resolveEntryE env k es
                    else if length validEntryRecords = 1
                    then (None, updateEntryForRecordE env now (hd validEntryRecords) k es)
                    else (None, es))))"

fun reconcileEntriesE ::
  "'g env \<Rightarrow> nat \<Rightarrow> GuardRecord list \<Rightarrow> 32 word list \<Rightarrow> (32 word \<times> Entry) list
     \<Rightarrow> exn option \<times> (32 word \<times> Entry) list" where
  "reconcileEntriesE env now records [] es = (None, es)"
| "reconcileEntriesE env now records (k # ks) es =
     (case reconcileEntryE env now records k es of
        (Some x, es1) \<Rightarrow> (Some x, es1)
      | (None, es1) \<Rightarrow> reconcileEntriesE env now records ks es1)"

definition createEntryForRecordE ::
  "'g env \<Rightarrow> nat \<Rightarrow> GuardRecord \<Rightarrow> (32 word \<times> Entry) list \<Rightarrow> (32 word \<times> Entry) list" where
  "createEntryForRecordE env now record es =
     (case recordFields env record of
        None \<Rightarrow> es
      | Some (sev, assoc) \<Rightarrow>
          if entryCtorRaises env (recordId record) then es
          else map_insert (recordId record) (entryOfRecord now record sev assoc) es)"

definition createEntryIfNotExistsE ::
  "'g env \<Rightarrow> nat \<Rightarrow> GuardRecord \<Rightarrow> (32 word \<times> Entry) list \<Rightarrow> (32 word \<times> Entry) list" where
  "createEntryIfNotExistsE env now validRecord es =
     (if list_all (\<lambda>p. targetId validRecord \<noteq> entityPath (snd p)) es
      then createEntryForRecordE env now validRecord es
      else es)"

definition passE ::
  "'g env \<Rightarrow> nat \<Rightarrow> GuardRecord list \<Rightarrow> (32 word \<times> Entry) list \<Rightarrow> (32 word \<times> Entry) list" where
  "passE env now records es =
     (if records = [] \<and> es \<noteq> [] then []
      else
        (case reconcileEntriesE env now records (map fst es) es of
           (Some x, es1) \<Rightarrow> es1
         | (None, es1) \<Rightarrow>
             fold (createEntryIfNotExistsE env now)
               (filter (\<lambda>record. isValidRecord (recordId record)) records) es1))"

subsection \<open>Notions the proofs use\<close>

text \<open>
  An entry is settled when its step of the loop has nothing to do: with no valid record
  of its hardware it is resolved already; with one, it has the fields of that record (or
  a lookup for that record fails); with more, it is left alone anyway.
\<close>

definition validEntryRecords :: "GuardRecord list \<Rightarrow> Entry \<Rightarrow> GuardRecord list" where
  "validEntryRecords records e =
     filter (\<lambda>record. isValidRecord (recordId record))
       (filter (\<lambda>record. entityPath e = targetId record) records)"

definition settled :: "'g env \<Rightarrow> GuardRecord list \<Rightarrow> Entry \<Rightarrow> bool" where
  "settled env records e =
     (let vs = validEntryRecords records e
      in if vs = [] then resolved e
         else if length vs = 1
         then (case recordFields env (hd vs) of
                 None \<Rightarrow> True
               | Some (sev, assoc) \<Rightarrow> severity e = sev \<and> associations e = assoc)
         else True)"

text \<open>A record for which the creation step of the pass changes nothing.\<close>

definition createNoop :: "'g env \<Rightarrow> GuardRecord \<Rightarrow> (32 word \<times> Entry) list \<Rightarrow> bool" where
  "createNoop env record es =
     ((\<exists>p \<in> set es. entityPath (snd p) = targetId record)
      \<or> recordFields env record = None
      \<or> entryCtorRaises env (recordId record)
      \<or> recordId record \<in> fst ` set es)"


subsection \<open>A guard store and an environment to compute with\<close>

text \<open>
  A guard store kept as the list of its records: a new record takes the next number, and
  clearing a record gives it the id of a resolved one. The environment around it knows two
  pieces of hardware, the second an eco core.
\<close>

definition sample_create :: "GuardRecord list \<Rightarrow> EntityPath \<Rightarrow> 32 word \<Rightarrow> 8 word \<Rightarrow> exn + (GuardRecord \<times> GuardRecord list)" where
  "sample_create g path eId ty =
     (let r = \<lparr>recordId = word_of_nat (length g) + 1, targetId = path, elogId = eId, errType = ty\<rparr>
      in Inr (r, g @ [r]))"

definition sample_clear :: "GuardRecord list \<Rightarrow> 32 word \<Rightarrow> GuardRecord list" where
  "sample_clear g recId = map (\<lambda>r. if recordId r = recId then r\<lparr>recordId := 0xFFFFFFFF\<rparr> else r) g"

definition sample_env :: "GuardRecord list env" where
  "sample_env =
     \<lparr>guard_getAll = (\<lambda>g. g),
      guard_create = sample_create,
      guard_clear = sample_clear,
      getPhysicalPath = (\<lambda>p. if p = ''/inv/core0'' then Some [1] else None),
      getInventoryPath = (\<lambda>p eco. if p = [1] then Some (''/inv/core0'', False)
                                   else if p = [2] then Some (''/inv/core1'', True) else None),
      getGuardType = (\<lambda>s. Some (case s of Critical \<Rightarrow> 0xE3 | Warning \<Rightarrow> 0xE6 | Manual \<Rightarrow> 0xD2)),
      getEntrySeverityType = (\<lambda>t. if t = 0xE3 then Some Critical else if t = 0xE6 then Some Warning
                                   else if t = 0xD2 then Some Manual else None),
      getBMCLogPath = (\<lambda>e. Some (if e = 0 then [] else ''/log/'' @ to_string (unat e))),
      isHwIosolationSettingEnabled = True,
      chassisPowerState = On,
      loggingServiceName = Inr ''logging'',
      getPELIdFromBMCLogId = (\<lambda>n. Inr (n + 0x50000000)),
      filename = last_component,
      entryObjPathRoot = ''/entry'',
      entryCtorRaises = (\<lambda>k. False),
      resolveRaises = (\<lambda>k. False),
      cerealRaises = False\<rparr>"

definition sample_state :: "GuardRecord list state" where
  "sample_state =
     \<lparr>isolatedHardwares = [], persistedEcoCores = [], timerObjs = [], guardStore = [],
      ecoCoresFile = None, entryFiles = [], events = []\<rparr>"

text \<open>
  A state with two pending timers, two entries and a guard store of two records: a valid
  record for the hardware of the first entry, with another severity, and a resolved one
  for the hardware of the second.
\<close>

definition two_record_state :: "GuardRecord list state" where
  "two_record_state =
     \<lparr>isolatedHardwares =
        [(1, \<lparr>entryRecId = 1, severity = Warning, resolved = False, associations = [],
              entityPath = [1], elapsed = 3\<rparr>),
         (7, \<lparr>entryRecId = 7, severity = Critical, resolved = False, associations = [],
              entityPath = [2], elapsed = 4\<rparr>)],
      persistedEcoCores = [[2]],
      timerObjs = [\<lparr>timerInterval = 5, timerEnabled = True\<rparr>, \<lparr>timerInterval = 5, timerEnabled = True\<rparr>],
      guardStore =
        [\<lparr>recordId = 1, targetId = [1], elogId = 0, errType = 0xE3\<rparr>,
         \<lparr>recordId = 0xFFFFFFFF, targetId = [2], elogId = 0, errType = 0xE6\<rparr>],
      ecoCoresFile = Some [[2]], entryFiles = [], events = []\<rparr>"


text \<open>
  A state with two pending timers, one entry and an empty guard store, and the state that
  a call of \<open>createWithEntityPath\<close> for the eco core leaves when the error-log service
  fails: the call ends in \<open>InvalidArgument\<close>, after the path has joined the eco cores.
\<close>

definition one_entry_state :: "GuardRecord list state" where
  "one_entry_state =
     \<lparr>isolatedHardwares =
        [(1, \<lparr>entryRecId = 1, severity = Warning, resolved = False, associations = [],
              entityPath = [1], elapsed = 3\<rparr>)],
      persistedEcoCores = [],
      timerObjs = [\<lparr>timerInterval = 5, timerEnabled = True\<rparr>, \<lparr>timerInterval = 5, timerEnabled = True\<rparr>],
      guardStore = [],
      ecoCoresFile = None, entryFiles = [], events = []\<rparr>"

definition after_failed_create :: "GuardRecord list state" where
  "after_failed_create =
     snd (createWithEntityPath (sample_env\<lparr>getPELIdFromBMCLogId := \<lambda>n. Inl SdBusError\<rparr>) 5 [2]
            Warning ''/log/3'' one_entry_state)"

text \<open>
  A state with one pending timer and one entry, and a guard store with a valid record of
  the hardware of that entry under another id and two valid records of a hardware that has
  no entry.
\<close>

definition new_hardware_state :: "GuardRecord list state" where
  "new_hardware_state =
     \<lparr>isolatedHardwares =
        [(1, \<lparr>entryRecId = 1, severity = Warning, resolved = False, associations = [],
              entityPath = [1], elapsed = 3\<rparr>)],
      persistedEcoCores = [],
      timerObjs = [\<lparr>timerInterval = 5, timerEnabled = True\<rparr>],
      guardStore =
        [\<lparr>recordId = 9, targetId = [1], elogId = 0, errType = 0xE3\<rparr>,
         \<lparr>recordId = 3, targetId = [2], elogId = 0, errType = 0xE6\<rparr>,
         \<lparr>recordId = 4, targetId = [2], elogId = 0, errType = 0xE3\<rparr>],
      ecoCoresFile = None, entryFiles = [], events = []\<rparr>"


section \<open>What the operations leave alone\<close>

lemma emit_fields [simp]:
  "isolatedHardwares (emit ev st) = isolatedHardwares st"
  "persistedEcoCores (emit ev st) = persistedEcoCores st"
  "timerObjs (emit ev st) = timerObjs st"
  "guardStore (emit ev st) = guardStore st"
  "ecoCoresFile (emit ev st) = ecoCoresFile st"
  "entryFiles (emit ev st) = entryFiles st"
  "events (emit ev st) = events st @ [ev]"
  by (simp_all add: emit_def)

lemma serialize_fields [simp]:
  "isolatedHardwares (serialize env st) = isolatedHardwares st"
  "persistedEcoCores (serialize env st) = persistedEcoCores st"
  "timerObjs (serialize env st) = timerObjs st"
  "guardStore (serialize env st) = guardStore st"
  "entryFiles (serialize env st) = entryFiles st"
  by (simp_all add: serialize_def Let_def)

lemma updateEcoCoresList_fields [simp]:
  "isolatedHardwares (updateEcoCoresList env b p st) = isolatedHardwares st"
  "timerObjs (updateEcoCoresList env b p st) = timerObjs st"
  "guardStore (updateEcoCoresList env b p st) = guardStore st"
  "entryFiles (updateEcoCoresList env b p st) = entryFiles st"
  by (simp_all add: updateEcoCoresList_def)

lemma eraseEntry_fields [simp]:
  "isolatedHardwares (eraseEntry env k st) = map_erase k (isolatedHardwares st)"
  "timerObjs (eraseEntry env k st) = timerObjs st"
  "guardStore (eraseEntry env k st) = guardStore st"
  "entryFiles (eraseEntry env k st) = entryFiles st"
  by (simp_all add: eraseEntry_def Let_def split: option.splits)

lemma resolveEntry_timerObjs [simp]:
  "timerObjs (snd (resolveEntry env c k st)) = timerObjs st"
  by (simp add: resolveEntry_def Let_def split: option.splits)

lemma resolveEntry_guardStore [simp]:
  "guardStore (snd (resolveEntry env False k st)) = guardStore st"
  by (simp add: resolveEntry_def Let_def split: option.splits)

lemma resolveEntries_timerObjs [simp]:
  "timerObjs (resolveEntries env c ks st) = timerObjs st"
proof (induction ks arbitrary: st)
  case Nil show ?case by simp
next
  case (Cons k ks)
  have "timerObjs (snd (resolveEntry env c k st)) = timerObjs st" by simp
  then show ?case by (cases "resolveEntry env c k st") (auto simp: Cons split: option.splits)
qed

lemma createEntry_timerObjs [simp]:
  "timerObjs (snd (createEntry env now r res sev hw lg d p st)) = timerObjs st"
  by (simp add: createEntry_def Let_def)

lemma createEntryForRecord_timerObjs [simp]:
  "timerObjs (createEntryForRecord env now r b st) = timerObjs st"
proof -
  have *: "\<And>r res sev hw lg d p s. timerObjs (case createEntry env now r res sev hw lg d p s of
        (None, st3) \<Rightarrow> emit (Log (SkipCreateFailed (targetId r'))) st3 | (Some p, st3) \<Rightarrow> st3) = timerObjs s" for r'
    subgoal for r res sev hw lg d p s
      using createEntry_timerObjs[of env now r res sev hw lg d p s]
      by (cases "createEntry env now r res sev hw lg d p s") (auto split: option.splits)
    done
  show ?thesis
    by (simp add: createEntryForRecord_def Let_def * split: option.splits prod.splits)
qed

lemma updateEntryForRecord_timerObjs [simp]:
  "timerObjs (updateEntryForRecord env now r k st) = timerObjs st"
  by (simp add: updateEntryForRecord_def Let_def split: option.splits prod.splits)

lemma cleanupEcoCores_timerObjs [simp]:
  "timerObjs (snd (cleanupEcoCores env ps (u, st))) = timerObjs st"
  by (induction ps arbitrary: u st) auto

lemma cleanupPersistedEcoCores_timerObjs [simp]:
  "timerObjs (cleanupPersistedEcoCores env st) = timerObjs st"
proof -
  have "timerObjs (snd (cleanupEcoCores env (persistedEcoCores st) (False, st))) = timerObjs st"
    by simp
  then show ?thesis
    by (cases "cleanupEcoCores env (persistedEcoCores st) (False, st)")
       (auto simp: cleanupPersistedEcoCores_def)
qed

lemma reconcileEntry_timerObjs [simp]:
  "timerObjs (snd (reconcileEntry env now records k st)) = timerObjs st"
  by (simp add: reconcileEntry_def Let_def split: option.splits)

lemma reconcileEntries_timerObjs [simp]:
  "timerObjs (snd (reconcileEntries env now records ks st)) = timerObjs st"
proof (induction ks arbitrary: st)
  case Nil show ?case by simp
next
  case (Cons k ks)
  have "timerObjs (snd (reconcileEntry env now records k st)) = timerObjs st" by simp
  then show ?case
    by (cases "reconcileEntry env now records k st") (auto simp: Cons split: option.splits)
qed

lemma createEntryIfNotExists_timerObjs [simp]:
  "timerObjs (createEntryIfNotExists env now r st) = timerObjs st"
  by (simp add: createEntryIfNotExists_def)

lemma fold_createEntryIfNotExists_timerObjs [simp]:
  "timerObjs (fold (createEntryIfNotExists env now) rs st) = timerObjs st"
  by (induction rs arbitrary: st) auto

lemma resolveAllEntries_timerObjs [simp]:
  "timerObjs (resolveAllEntries env c st) = timerObjs st"
  by (simp add: resolveAllEntries_def)

section \<open>The error-log id\<close>

text \<open>A failure of the remote calls gives nothing; a failure to parse the path leaves the function.\<close>

lemma getEID_remote_failure:
  "loggingServiceName env = Inl SdBusError
   \<or> (loggingServiceName env = Inr svc \<and> stoi (filename env bmcErrorLog) = Inr n
       \<and> getPELIdFromBMCLogId env (word_of_int n) = Inl SdBusError) \<Longrightarrow>
   getEID env bmcErrorLog st = (Inr None, emit (Log (GetEIDFailed bmcErrorLog)) st)"
  by (auto simp: getEID_def)

lemma getEID_parse_failure:
  "loggingServiceName env = Inr svc \<Longrightarrow> stoi (filename env bmcErrorLog) = Inl x \<Longrightarrow>
   getEID env bmcErrorLog st = (Inl x, st)"
  by (simp add: getEID_def)

text \<open>
  C9. \<open>getEID\<close> is claimed never to raise. The service being there, the path
  \<open>/xyz/openbmc_project/logging/entry/abc\<close> has a file name that \<open>std::stoi\<close>
  cannot parse: \<open>std::invalid_argument\<close> leaves \<open>getEID\<close>, since the handler
  catches \<open>SdBusError\<close> only.
\<close>

theorem getEID_raises_invalid_argument:
  "getEID sample_env ''/xyz/openbmc_project/logging/entry/abc'' sample_state =
     (Inl StdInvalidArgument, sample_state)"
  by (simp add: getEID_def sample_env_def stoi_def last_component_def isspace_def isdigit_def)

section \<open>The timers\<close>

text \<open>
  C2, as stated: at most one timer is pending at a time. Two signals in a row leave two
  timers in the queue, and after the first of them has fired the second is still pending.
\<close>

theorem two_signals_two_timers:
  "length (timerObjs (processHardwareIsolationRecordFile False
                        (processHardwareIsolationRecordFile False sample_state))) = 2
   \<and> length (timerObjs (snd (handleHostIsolatedHardwares sample_env 0
                 (processHardwareIsolationRecordFile False
                    (processHardwareIsolationRecordFile False sample_state))))) = 1"
  by (simp add: processHardwareIsolationRecordFile_def sample_state_def sample_env_def
      handleHostIsolatedHardwares_def guardGetAll_def cleanupPersistedEcoCores_def
      serialize_def emit_def Let_def)

text \<open>
  C2, amended: every signal whose timer could be made puts one more timer of 5 seconds at
  the back of the queue, whatever is pending, and every firing takes exactly the front
  timer away; so as many passes run as timers were made.
\<close>

theorem one_timer_per_signal:
  "timerObjs (fold processHardwareIsolationRecordFile raises st) =
     timerObjs st @
       replicate (length (filter Not raises)) \<lparr>timerInterval = 5, timerEnabled = True\<rparr>
   \<and> (timerObjs st = t # ts \<longrightarrow>
        timerObjs (snd (handleHostIsolatedHardwares env now st)) = ts)"
proof
  show "timerObjs (fold processHardwareIsolationRecordFile raises st) =
     timerObjs st @
       replicate (length (filter Not raises)) \<lparr>timerInterval = 5, timerEnabled = True\<rparr>"
    by (induction raises arbitrary: st)
       (auto simp: processHardwareIsolationRecordFile_def replicate_append_same)
next
  show "timerObjs st = t # ts \<longrightarrow>
        timerObjs (snd (handleHostIsolatedHardwares env now st)) = ts"
  proof
    assume a: "timerObjs st = t # ts"
    let ?st1 = "emit GuardGetAll (st\<lparr>timerObjs := ts\<rparr>)"
    let ?recs = "guardGetAll env ?st1"
    obtain x b where
      eq: "reconcileEntries env now ?recs (map fst (isolatedHardwares ?st1)) ?st1 = (x, b)"
      by (cases "reconcileEntries env now ?recs (map fst (isolatedHardwares ?st1)) ?st1")
    have "timerObjs b = ts"
      using reconcileEntries_timerObjs[of env now ?recs "map fst (isolatedHardwares ?st1)" ?st1]
      unfolding eq by simp
    then show "timerObjs (snd (handleHostIsolatedHardwares env now st)) = ts"
      using a eq
      by (auto simp: handleHostIsolatedHardwares_def Let_def split: option.splits)
  qed
qed

theorem one_timer_per_signal_witness:
  "timerObjs (fold processHardwareIsolationRecordFile [False, True, False] sample_state) =
     [\<lparr>timerInterval = 5, timerEnabled = True\<rparr>, \<lparr>timerInterval = 5, timerEnabled = True\<rparr>]
   \<and> timerObjs (snd (handleHostIsolatedHardwares sample_env 0
         (fold processHardwareIsolationRecordFile [False, True, False] sample_state))) =
     [\<lparr>timerInterval = 5, timerEnabled = True\<rparr>]"
proof -
  have q: "timerObjs (fold processHardwareIsolationRecordFile [False, True, False] sample_state) =
     [\<lparr>timerInterval = 5, timerEnabled = True\<rparr>, \<lparr>timerInterval = 5, timerEnabled = True\<rparr>]"
    by (simp add: processHardwareIsolationRecordFile_def sample_state_def emit_def)
  show ?thesis
    using q
      one_timer_per_signal
        [where raises = "[]" and env = sample_env and now = 0
           and st = "fold processHardwareIsolationRecordFile [False, True, False] sample_state"
           and t = "\<lparr>timerInterval = 5, timerEnabled = True\<rparr>"
           and ts = "[\<lparr>timerInterval = 5, timerEnabled = True\<rparr>]"]
    by simp
qed

section \<open>The creation interface\<close>

text \<open>
  C6. Each of the three create functions asks the policy first. With the isolation
  setting off the call fails with \<open>Unavailable\<close>; with the setting on, a manual isolation
  while the chassis is not off fails with \<open>NotAllowed\<close>. In both cases the state the
  call leaves is the state it found with one more log line: the catalog and the guard
  store have not been called, there is no new record and no new entry.
\<close>

theorem policy_gate_first:
  "(\<not> isHwIosolationSettingEnabled env \<longrightarrow>
      create env now hw sev st = (Inl Unavailable, st\<lparr>events := events st @ [Log IsolationSettingDisabled]\<rparr>)
    \<and> createWithErrorLog env now hw sev lg st = (Inl Unavailable, st\<lparr>events := events st @ [Log IsolationSettingDisabled]\<rparr>)
    \<and> createWithEntityPath env now path sev lg st = (Inl Unavailable, st\<lparr>events := events st @ [Log IsolationSettingDisabled]\<rparr>))
   \<and> (isHwIosolationSettingEnabled env \<and> sev = Manual \<and> chassisPowerState env \<noteq> Off \<longrightarrow>
      create env now hw sev st = (Inl NotAllowed, st\<lparr>events := events st @ [Log ManualNeedsChassisOff]\<rparr>)
    \<and> createWithErrorLog env now hw sev lg st = (Inl NotAllowed, st\<lparr>events := events st @ [Log ManualNeedsChassisOff]\<rparr>)
    \<and> createWithEntityPath env now path sev lg st = (Inl NotAllowed, st\<lparr>events := events st @ [Log ManualNeedsChassisOff]\<rparr>))"
  by (simp add: create_def createWithErrorLog_def createWithEntityPath_def
      isHwIsolationAllowed_def emit_def)

theorem policy_gate_first_witness:
  "create (sample_env\<lparr>isHwIosolationSettingEnabled := False\<rparr>) 7 ''/inv/core0'' Critical sample_state =
     (Inl Unavailable, sample_state\<lparr>events := [Log IsolationSettingDisabled]\<rparr>)
   \<and> create sample_env 7 ''/inv/core0'' Manual sample_state =
     (Inl NotAllowed, sample_state\<lparr>events := [Log ManualNeedsChassisOff]\<rparr>)"
  using policy_gate_first
          [where env = "sample_env\<lparr>isHwIosolationSettingEnabled := False\<rparr>" and now = 7
             and hw = "''/inv/core0''" and sev = Critical and st = sample_state]
        policy_gate_first
          [where env = sample_env and now = 7 and hw = "''/inv/core0''" and sev = Manual
             and st = sample_state]
  by (simp add: sample_env_def sample_state_def)


lemma getEID_Some:
  "fst (getEID env lg st) = Inr (Some eId) \<Longrightarrow> getEID env lg st' = (Inr (Some eId), st')"
  by (auto simp: getEID_def split: sum.splits if_splits)

lemma updateOrCreateEntry_failed:
  assumes "find (\<lambda>p. entityPath (snd p) = targetId r \<and> entryRecId (snd p) = recordId r)
             (isolatedHardwares st) = None"
    and "entryCtorRaises env (recordId r)"
  shows "updateOrCreateEntry env now r sev hw lg st =
           (Inl InternalFailure,
            st\<lparr>guardStore := guard_clear env (guardStore st) (recordId r),
               events := events st @ [Log CreateEntryFailed, GuardClear (recordId r)]\<rparr>)"
  using assms by (simp add: updateOrCreateEntry_def updateEntry_def createEntry_def emit_def)

text \<open>
  C4. The policy allowing the call and the severity having a guard type, suppose the guard
  store has created the record \<open>r\<close>, no entry of this record and hardware is there to
  update, and the construction of the Entry raises. Then each create function ends in
  \<open>InternalFailure\<close>, the guard store is the one the creation left with \<open>r\<close>
  cleared, and the entries are as they were.
\<close>

theorem compensating_delete:
  assumes "isHwIosolationSettingEnabled env" and "sev = Manual \<longrightarrow> chassisPowerState env = Off"
    and "getGuardType env sev = Some guardType"
    and "find (\<lambda>p. entityPath (snd p) = targetId r \<and> entryRecId (snd p) = recordId r)
           (isolatedHardwares st) = None"
    and "entryCtorRaises env (recordId r)"
  shows
  "(getPhysicalPath env hw = Some phys \<and> guard_create env (guardStore st) phys 0 guardType = Inr (r, g) \<longrightarrow>
      fst (create env now hw sev st) = Inl InternalFailure
      \<and> guardStore (snd (create env now hw sev st)) = guard_clear env g (recordId r)
      \<and> isolatedHardwares (snd (create env now hw sev st)) = isolatedHardwares st)
   \<and> (getPhysicalPath env hw = Some phys \<and> fst (getEID env lg st) = Inr (Some eId)
       \<and> guard_create env (guardStore st) phys eId guardType = Inr (r, g) \<longrightarrow>
      fst (createWithErrorLog env now hw sev lg st) = Inl InternalFailure
      \<and> guardStore (snd (createWithErrorLog env now hw sev lg st)) = guard_clear env g (recordId r)
      \<and> isolatedHardwares (snd (createWithErrorLog env now hw sev lg st)) = isolatedHardwares st)
   \<and> (getInventoryPath env path False = Some (invPath, ecoCore) \<and> fst (getEID env lg st) = Inr (Some eId)
       \<and> guard_create env (guardStore st) path eId guardType = Inr (r, g) \<longrightarrow>
      fst (createWithEntityPath env now path sev lg st) = Inl InternalFailure
      \<and> guardStore (snd (createWithEntityPath env now path sev lg st)) = guard_clear env g (recordId r)
      \<and> isolatedHardwares (snd (createWithEntityPath env now path sev lg st)) = isolatedHardwares st)"
proof -
  have gate: "isHwIsolationAllowed env sev s = (None, s)" for s :: "'a state"
    using assms(1,2) by (simp add: isHwIsolationAllowed_def)
  show ?thesis
  proof (intro conjI impI)
    assume h: "getPhysicalPath env hw = Some phys \<and> guard_create env (guardStore st) phys 0 guardType = Inr (r, g)"
    let ?s = "(emit (GuardCreate phys 0 guardType) (emit (CatalogPhysicalPath hw) st))\<lparr>guardStore := g\<rparr>"
    have c: "create env now hw sev st = updateOrCreateEntry env now r sev hw [] ?s"
      using h assms(3) by (simp add: create_def gate guardCreate_def Let_def)
    have f: "find (\<lambda>p. entityPath (snd p) = targetId r \<and> entryRecId (snd p) = recordId r)
             (isolatedHardwares ?s) = None" using assms(4) by simp
    show "fst (create env now hw sev st) = Inl InternalFailure"
      "guardStore (snd (create env now hw sev st)) = guard_clear env g (recordId r)"
      "isolatedHardwares (snd (create env now hw sev st)) = isolatedHardwares st"
      unfolding c updateOrCreateEntry_failed[OF f assms(5)] by simp_all
  next
    assume h: "getPhysicalPath env hw = Some phys \<and> fst (getEID env lg st) = Inr (Some eId)
       \<and> guard_create env (guardStore st) phys eId guardType = Inr (r, g)"
    let ?s = "(emit (GuardCreate phys eId guardType) (emit (CatalogPhysicalPath hw) st))\<lparr>guardStore := g\<rparr>"
    have e: "getEID env lg s = (Inr (Some eId), s)" for s :: "'a state"
      using h getEID_Some by blast
    have c: "createWithErrorLog env now hw sev lg st = updateOrCreateEntry env now r sev hw lg ?s"
      using h assms(3) by (simp add: createWithErrorLog_def gate guardCreate_def Let_def e)
    have f: "find (\<lambda>p. entityPath (snd p) = targetId r \<and> entryRecId (snd p) = recordId r)
             (isolatedHardwares ?s) = None" using assms(4) by simp
    show "fst (createWithErrorLog env now hw sev lg st) = Inl InternalFailure"
      "guardStore (snd (createWithErrorLog env now hw sev lg st)) = guard_clear env g (recordId r)"
      "isolatedHardwares (snd (createWithErrorLog env now hw sev lg st)) = isolatedHardwares st"
      unfolding c updateOrCreateEntry_failed[OF f assms(5)] by simp_all
  next
    assume h: "getInventoryPath env path False = Some (invPath, ecoCore) \<and> fst (getEID env lg st) = Inr (Some eId)
       \<and> guard_create env (guardStore st) path eId guardType = Inr (r, g)"
    let ?s = "(emit (GuardCreate path eId guardType)
                (updateEcoCoresList env ecoCore path (emit (CatalogInventoryPath path False) st)))\<lparr>guardStore := g\<rparr>"
    have e: "getEID env lg s = (Inr (Some eId), s)" for s :: "'a state"
      using h getEID_Some by blast
    have c: "createWithEntityPath env now path sev lg st = updateOrCreateEntry env now r sev invPath lg ?s"
      using h assms(3) by (simp add: createWithEntityPath_def gate guardCreate_def Let_def e)
    have f: "find (\<lambda>p. entityPath (snd p) = targetId r \<and> entryRecId (snd p) = recordId r)
             (isolatedHardwares ?s) = None" using assms(4) by simp
    show "fst (createWithEntityPath env now path sev lg st) = Inl InternalFailure"
      "guardStore (snd (createWithEntityPath env now path sev lg st)) = guard_clear env g (recordId r)"
      "isolatedHardwares (snd (createWithEntityPath env now path sev lg st)) = isolatedHardwares st"
      unfolding c updateOrCreateEntry_failed[OF f assms(5)] by simp_all
  qed
qed


theorem compensating_delete_witness:
  "fst (create (sample_env\<lparr>entryCtorRaises := \<lambda>k. True\<rparr>) 7 ''/inv/core0'' Critical sample_state)
     = Inl InternalFailure
   \<and> guardStore (snd (create (sample_env\<lparr>entryCtorRaises := \<lambda>k. True\<rparr>) 7 ''/inv/core0''
                          Critical sample_state))
     = [\<lparr>recordId = 0xFFFFFFFF, targetId = [1], elogId = 0, errType = 0xE3\<rparr>]
   \<and> fst (createWithErrorLog (sample_env\<lparr>entryCtorRaises := \<lambda>k. True\<rparr>) 7 ''/inv/core0''
            Critical ''/log/3'' sample_state)
     = Inl InternalFailure
   \<and> guardStore (snd (createWithErrorLog (sample_env\<lparr>entryCtorRaises := \<lambda>k. True\<rparr>) 7
                          ''/inv/core0'' Critical ''/log/3'' sample_state))
     = [\<lparr>recordId = 0xFFFFFFFF, targetId = [1], elogId = 0x50000003, errType = 0xE3\<rparr>]
   \<and> fst (createWithEntityPath (sample_env\<lparr>entryCtorRaises := \<lambda>k. True\<rparr>) 7 [2]
            Critical ''/log/3'' sample_state)
     = Inl InternalFailure
   \<and> guardStore (snd (createWithEntityPath (sample_env\<lparr>entryCtorRaises := \<lambda>k. True\<rparr>) 7 [2]
                          Critical ''/log/3'' sample_state))
     = [\<lparr>recordId = 0xFFFFFFFF, targetId = [2], elogId = 0x50000003, errType = 0xE3\<rparr>]"
proof -
  let ?env = "sample_env\<lparr>entryCtorRaises := \<lambda>k. True\<rparr>"
  let ?r0 = "\<lparr>recordId = 1, targetId = [1], elogId = 0, errType = 0xE3\<rparr>"
  let ?r1 = "\<lparr>recordId = 1, targetId = [1], elogId = 0x50000003, errType = 0xE3\<rparr>"
  let ?r2 = "\<lparr>recordId = 1, targetId = [2], elogId = 0x50000003, errType = 0xE3\<rparr>"
  have h1: "isHwIosolationSettingEnabled ?env" by (simp add: sample_env_def)
  have h2: "Critical = Manual \<longrightarrow> chassisPowerState ?env = Off" by simp
  have h3: "getGuardType ?env Critical = Some 0xE3" by (simp add: sample_env_def)
  have h4: "find (\<lambda>p. entityPath (snd p) = targetId r \<and> entryRecId (snd p) = recordId r)
              (isolatedHardwares sample_state) = None" for r
    by (simp add: sample_state_def)
  have h5: "entryCtorRaises ?env (recordId r)" for r by (simp add: sample_env_def)
  have e: "fst (getEID ?env ''/log/3'' sample_state) = Inr (Some 0x50000003)"
    by (simp add: getEID_def sample_env_def stoi_def last_component_def isspace_def isdigit_def
        digits_value_def digit_value_def)
  have p0: "getPhysicalPath ?env ''/inv/core0'' = Some [1]
     \<and> guard_create ?env (guardStore sample_state) [1] 0 0xE3 = Inr (?r0, [?r0])"
    by (simp add: sample_env_def sample_state_def sample_create_def Let_def)
  have p1: "getPhysicalPath ?env ''/inv/core0'' = Some [1]
     \<and> fst (getEID ?env ''/log/3'' sample_state) = Inr (Some 0x50000003)
     \<and> guard_create ?env (guardStore sample_state) [1] 0x50000003 0xE3 = Inr (?r1, [?r1])"
    using e by (simp add: sample_env_def sample_state_def sample_create_def Let_def)
  have p2: "getInventoryPath ?env [2] False = Some (''/inv/core1'', True)
     \<and> fst (getEID ?env ''/log/3'' sample_state) = Inr (Some 0x50000003)
     \<and> guard_create ?env (guardStore sample_state) [2] 0x50000003 0xE3 = Inr (?r2, [?r2])"
    using e by (simp add: sample_env_def sample_state_def sample_create_def Let_def)
  have c: "guard_clear sample_env [r] 1 = [r\<lparr>recordId := 0xFFFFFFFF\<rparr>]" if "recordId r = 1" for r
    using that by (simp add: sample_env_def sample_clear_def)
  note t0 = compensating_delete[OF h1 h2 h3 h4 h5, THEN conjunct1, rule_format, OF p0]
  note t1 = compensating_delete[OF h1 h2 h3 h4 h5, THEN conjunct2, THEN conjunct1, rule_format, OF p1]
  note t2 = compensating_delete[OF h1 h2 h3 h4 h5, THEN conjunct2, THEN conjunct2, rule_format, OF p2]
  show ?thesis
    using t0[of 7] t1[of 7] t2[of 7] by (simp add: c)
qed

section \<open>Cleaning the eco cores\<close>

lemma serialize_events:
  "\<exists>evs. events (serialize env st) = events st @ ManagerSerialize # evs"
  by (simp add: serialize_def Let_def)

lemma updateEcoCoresList_events:
  "\<exists>evs. events (updateEcoCoresList env b p st) = events st @ ManagerSerialize # evs"
  by (simp add: updateEcoCoresList_def serialize_def Let_def emit_def)

lemma updateEcoCoresList_False [simp]:
  "persistedEcoCores (updateEcoCoresList env False p st) = removeAll p (persistedEcoCores st)"
  by (simp add: updateEcoCoresList_def)

lemma list_all_not_isolated:
  "list_all (\<lambda>q. entityPath (snd q) \<noteq> p) (isolatedHardwares st) \<longleftrightarrow> \<not> isolated st p"
  by (auto simp: isolated_def list_all_iff)

lemma cleanupEcoCores_spec:
  "cleanupEcoCores env ps (u, st) = (u', st') \<Longrightarrow>
     persistedEcoCores st' = filter (\<lambda>p. p \<notin> set ps \<or> isolated st p) (persistedEcoCores st)
     \<and> isolatedHardwares st' = isolatedHardwares st
     \<and> (u' \<longleftrightarrow> u \<or> (\<exists>p \<in> set ps. \<not> isolated st p))
     \<and> (\<exists>evs. events st' = events st @ evs \<and>
            (ManagerSerialize \<in> set evs \<longleftrightarrow> (\<exists>p \<in> set ps. \<not> isolated st p)))"
proof (induction ps arbitrary: u st)
  case Nil
  then show ?case by simp
next
  case (Cons p ps)
  show ?case
  proof (cases "isolated st p")
    case True
    then have "cleanupEcoCores env ps (u, st) = (u', st')"
      using Cons.prems by (simp add: list_all_not_isolated)
    from Cons.IH[OF this] True show ?thesis
      by (auto intro!: filter_cong)
  next
    case False
    let ?s = "updateEcoCoresList env False p st"
    have i: "isolated ?s = isolated st" by (simp add: isolated_def fun_eq_iff)
    have "cleanupEcoCores env ps (True, ?s) = (u', st')"
      using Cons.prems False by (simp add: list_all_not_isolated)
    from Cons.IH[OF this] obtain evs where
      a: "persistedEcoCores st' = filter (\<lambda>q. q \<notin> set ps \<or> isolated st q) (removeAll p (persistedEcoCores st))"
      and b: "isolatedHardwares st' = isolatedHardwares st" and c: "u'"
      and d: "events st' = events ?s @ evs"
      by (auto simp: i)
    obtain evs0 where e: "events ?s = events st @ ManagerSerialize # evs0"
      using updateEcoCoresList_events by blast
    have "filter (\<lambda>q. q \<notin> set ps \<or> isolated st q) (removeAll p (persistedEcoCores st))
          = filter (\<lambda>q. q \<notin> set (p # ps) \<or> isolated st q) (persistedEcoCores st)"
      using False by (induction "persistedEcoCores st") (auto simp: removeAll_filter_not_eq intro!: filter_cong)
    with a b c d e False show ?thesis by auto
  qed
qed

lemma cleanupPersistedEcoCores_effect:
  "persistedEcoCores (cleanupPersistedEcoCores env st) =
     (if isolatedHardwares st = [] then []
      else filter (isolated st) (persistedEcoCores st))
   \<and> isolatedHardwares (cleanupPersistedEcoCores env st) = isolatedHardwares st
   \<and> (\<exists>evs. events (cleanupPersistedEcoCores env st) = events st @ evs \<and>
         (ManagerSerialize \<in> set evs \<longleftrightarrow>
            isolatedHardwares st = [] \<or>
            persistedEcoCores (cleanupPersistedEcoCores env st) \<noteq> persistedEcoCores st))"
proof (cases "isolatedHardwares st = []")
  case True
  obtain evs where "events (serialize env (st\<lparr>persistedEcoCores := []\<rparr>)) =
      events st @ ManagerSerialize # evs"
    using serialize_events[of env "st\<lparr>persistedEcoCores := []\<rparr>"] by auto
  then show ?thesis using True by (simp add: cleanupPersistedEcoCores_def)
next
  case False
  obtain u st1 where c: "cleanupEcoCores env (persistedEcoCores st) (False, st) = (u, st1)"
    by (cases "cleanupEcoCores env (persistedEcoCores st) (False, st)")
  from cleanupEcoCores_spec[OF c] obtain evs where
    a: "persistedEcoCores st1 = filter (isolated st) (persistedEcoCores st)"
    and b: "isolatedHardwares st1 = isolatedHardwares st"
    and u: "u \<longleftrightarrow> (\<exists>p \<in> set (persistedEcoCores st). \<not> isolated st p)"
    and e: "events st1 = events st @ evs"
    and m: "ManagerSerialize \<in> set evs \<longleftrightarrow> (\<exists>p \<in> set (persistedEcoCores st). \<not> isolated st p)"
    by (auto cong: filter_cong)
  have ch: "filter (isolated st) (persistedEcoCores st) \<noteq> persistedEcoCores st
             \<longleftrightarrow> (\<exists>p \<in> set (persistedEcoCores st). \<not> isolated st p)"
    by (auto simp: filter_id_conv)
  show ?thesis
  proof (cases u)
    case True
    obtain evs1 where "events (serialize env st1) = events st1 @ ManagerSerialize # evs1"
      using serialize_events by blast
    with True a b u e ch False c show ?thesis
      by (simp add: cleanupPersistedEcoCores_def)
  next
    case nu: False
    with a b u e m ch False c show ?thesis
      by (simp add: cleanupPersistedEcoCores_def)
  qed
qed

text \<open>
  C8, as stated: the set is serialized only if its membership changed. With no entry and
  an empty set nothing changes, and \<open>serialize\<close> is called all the same.
\<close>

theorem cleanup_serializes_unchanged_set:
  "persistedEcoCores (cleanupPersistedEcoCores sample_env sample_state) =
     persistedEcoCores sample_state
   \<and> events sample_state = []
   \<and> events (cleanupPersistedEcoCores sample_env sample_state) = [ManagerSerialize]"
  by (simp add: cleanupPersistedEcoCores_def sample_state_def serialize_def emit_def)

text \<open>
  C8, amended: the cleanup empties the set when there is no entry, else keeps exactly the
  entity paths that some entry carries; it leaves the entries alone; and it calls
  \<open>serialize\<close> exactly when there is no entry or the set has changed.
\<close>

theorem cleanupPersistedEcoCores_spec:
  "persistedEcoCores (cleanupPersistedEcoCores env st) =
     (if isolatedHardwares st = [] then []
      else filter (isolated st) (persistedEcoCores st))
   \<and> isolatedHardwares (cleanupPersistedEcoCores env st) = isolatedHardwares st
   \<and> (\<exists>evs. events (cleanupPersistedEcoCores env st) = events st @ evs \<and>
         (ManagerSerialize \<in> set evs \<longleftrightarrow>
            isolatedHardwares st = [] \<or>
            persistedEcoCores (cleanupPersistedEcoCores env st) \<noteq> persistedEcoCores st))"
  by (rule cleanupPersistedEcoCores_effect)

theorem cleanupPersistedEcoCores_spec_witness:
  "persistedEcoCores (cleanupPersistedEcoCores sample_env
      (sample_state\<lparr>isolatedHardwares :=
           [(5, \<lparr>entryRecId = 5, severity = Warning, resolved = False, associations = [],
                 entityPath = [1], elapsed = 3\<rparr>)],
         persistedEcoCores := [[1], [2]]\<rparr>)) = [[1]]
   \<and> ManagerSerialize \<in> set (events (cleanupPersistedEcoCores sample_env
      (sample_state\<lparr>isolatedHardwares :=
           [(5, \<lparr>entryRecId = 5, severity = Warning, resolved = False, associations = [],
                 entityPath = [1], elapsed = 3\<rparr>)],
         persistedEcoCores := [[1], [2]]\<rparr>)))"
proof -
  let ?st = "sample_state\<lparr>isolatedHardwares :=
           [(5, \<lparr>entryRecId = 5, severity = Warning, resolved = False, associations = [],
                 entityPath = [1], elapsed = 3\<rparr>)],
         persistedEcoCores := [[1], [2]]\<rparr>"
  have i: "isolated ?st [1]" "\<not> isolated ?st [2]" by (simp_all add: isolated_def)
  have e: "events ?st = []" by (simp add: sample_state_def)
  show ?thesis
    using cleanupPersistedEcoCores_spec[of sample_env ?st] i e by auto
qed

section \<open>The full reset\<close>

lemma map_of_map_erase [simp]:
  "map_of (map_erase k xs) k' = (if k' = k then None else map_of xs k')"
  by (induction xs) (auto simp: map_erase_def)

lemma serialize_resolutionEvents:
  "\<exists>evs. events (serialize env st) = events st @ evs \<and> list_all resolutionEvent evs"
  by (simp add: serialize_def Let_def emit_def)

lemma updateEcoCoresList_resolutionEvents:
  "\<exists>evs. events (updateEcoCoresList env b p st) = events st @ evs \<and> list_all resolutionEvent evs"
  by (simp add: updateEcoCoresList_def serialize_def Let_def emit_def)

lemma eraseEntry_resolutionEvents:
  "\<exists>evs. events (eraseEntry env k st) = events st @ evs \<and> list_all resolutionEvent evs"
  using updateEcoCoresList_resolutionEvents[of env False _ st]
  by (auto simp: eraseEntry_def Let_def split: option.splits)

lemma resolveEntry_False:
  assumes "resolveEntry env False k st = (x, st')"
  shows "guardStore st' = guardStore st"
    and "\<exists>evs. events st' = events st @ evs \<and> list_all resolutionEvent evs
           \<and> (\<forall>e. map_of (isolatedHardwares st) k = Some e \<and> \<not> resolved e \<and> \<not> resolveRaises env k
                  \<longrightarrow> EntryResolved k False \<in> set evs)"
    and "k' \<noteq> k \<Longrightarrow> map_of (isolatedHardwares st') k' = map_of (isolatedHardwares st) k'"
    and "map_of (isolatedHardwares st) k' = None \<Longrightarrow> map_of (isolatedHardwares st') k' = None"
proof -
  show "guardStore st' = guardStore st"
    using assms by (auto simp: resolveEntry_def Let_def split: option.splits if_splits)
  show "k' \<noteq> k \<Longrightarrow> map_of (isolatedHardwares st') k' = map_of (isolatedHardwares st) k'"
    using assms by (auto simp: resolveEntry_def Let_def split: option.splits if_splits)
  show "map_of (isolatedHardwares st) k' = None \<Longrightarrow> map_of (isolatedHardwares st') k' = None"
    using assms by (auto simp: resolveEntry_def Let_def split: option.splits if_splits)
  show "\<exists>evs. events st' = events st @ evs \<and> list_all resolutionEvent evs
           \<and> (\<forall>e. map_of (isolatedHardwares st) k = Some e \<and> \<not> resolved e \<and> \<not> resolveRaises env k
                  \<longrightarrow> EntryResolved k False \<in> set evs)"
  proof (cases "\<exists>e. map_of (isolatedHardwares st) k = Some e \<and> \<not> resolved e \<and> \<not> resolveRaises env k")
    case True
    then obtain e where e: "map_of (isolatedHardwares st) k = Some e" "\<not> resolved e" "\<not> resolveRaises env k"
      by blast
    then have s: "st' = eraseEntry env k (emit (EntryResolved k False) st)"
      using assms by (simp add: resolveEntry_def)
    obtain evs where "events st' = events (emit (EntryResolved k False) st) @ evs" "list_all resolutionEvent evs"
      using eraseEntry_resolutionEvents[of env k "emit (EntryResolved k False) st"] s by auto
    then have "events st' = events st @ (EntryResolved k False # evs) \<and> list_all resolutionEvent (EntryResolved k False # evs)
      \<and> EntryResolved k False \<in> set (EntryResolved k False # evs)" by simp
    then show ?thesis by blast
  next
    case False
    then have "st' = st" using assms
      by (auto simp: resolveEntry_def Let_def split: option.splits if_splits)
    with False show ?thesis by auto
  qed
qed

lemma resolveEntries_False:
  "\<exists>evs. events (resolveEntries env False ks st) = events st @ evs \<and> list_all resolutionEvent evs
     \<and> (\<forall>k e. k \<in> set ks \<and> map_of (isolatedHardwares st) k = Some e \<and> \<not> resolved e \<and> \<not> resolveRaises env k
                  \<longrightarrow> EntryResolved k False \<in> set evs)"
proof (induction ks arbitrary: st)
  case Nil
  show ?case by simp
next
  case (Cons k ks)
  obtain x st1 where r: "resolveEntry env False k st = (x, st1)"
    by (cases "resolveEntry env False k st")
  note f = resolveEntry_False[OF r]
  let ?st2 = "case x of None \<Rightarrow> st1 | Some y \<Rightarrow> emit (Log (DeleteEntryFailed k)) st1"
  have step: "resolveEntries env False (k # ks) st = resolveEntries env False ks ?st2"
    using r by (simp split: option.splits)
  obtain evs1 where e1: "events st1 = events st @ evs1" "list_all resolutionEvent evs1"
    "\<forall>e. map_of (isolatedHardwares st) k = Some e \<and> \<not> resolved e \<and> \<not> resolveRaises env k
                  \<longrightarrow> EntryResolved k False \<in> set evs1"
    using f(2) by blast
  obtain evs2 where e2: "events ?st2 = events st @ evs2" "list_all resolutionEvent evs2" "set evs1 \<subseteq> set evs2"
    using e1 by (cases x) auto
  have m: "isolatedHardwares ?st2 = isolatedHardwares st1" by (cases x) auto
  obtain evs3 where e3: "events (resolveEntries env False ks ?st2) = events ?st2 @ evs3"
    "list_all resolutionEvent evs3"
    "\<forall>k e. k \<in> set ks \<and> map_of (isolatedHardwares ?st2) k = Some e \<and> \<not> resolved e \<and> \<not> resolveRaises env k
                  \<longrightarrow> EntryResolved k False \<in> set evs3"
    using Cons.IH[of ?st2] by blast
  have "\<forall>k' e. k' \<in> set (k # ks) \<and> map_of (isolatedHardwares st) k' = Some e \<and> \<not> resolved e \<and> \<not> resolveRaises env k'
                  \<longrightarrow> EntryResolved k' False \<in> set (evs2 @ evs3)"
  proof (intro allI impI)
    fix k' e assume h: "k' \<in> set (k # ks) \<and> map_of (isolatedHardwares st) k' = Some e \<and> \<not> resolved e \<and> \<not> resolveRaises env k'"
    show "EntryResolved k' False \<in> set (evs2 @ evs3)"
    proof (cases "k' = k")
      case True
      with h e1(3) e2(3) show ?thesis by auto
    next
      case False
      with h have "k' \<in> set ks" by simp
      moreover have "map_of (isolatedHardwares ?st2) k' = Some e"
        using f(3)[OF False] h m by simp
      ultimately show ?thesis using e3(3) h by auto
    qed
  qed
  then show ?case unfolding step using e2 e3 by (intro exI[of _ "evs2 @ evs3"]) auto
qed

lemma resolveEntries_guardStore [simp]:
  "guardStore (resolveEntries env False ks st) = guardStore st"
proof (induction ks arbitrary: st)
  case Nil show ?case by simp
next
  case (Cons k ks)
  obtain x st1 where r: "resolveEntry env False k st = (x, st1)"
    by (cases "resolveEntry env False k st")
  from resolveEntry_False(1)[OF r] r show ?case
    by (cases x) (simp_all add: Cons)
qed

lemma serialize_only:
  "\<exists>evs. events (serialize env st) = events st @ evs
     \<and> set evs \<subseteq> {ManagerSerialize, Log SerializeEcoCoresFailed}"
  by (simp add: serialize_def Let_def emit_def)

lemma updateEcoCoresList_only:
  "\<exists>evs. events (updateEcoCoresList env b p st) = events st @ evs
     \<and> set evs \<subseteq> {ManagerSerialize, Log SerializeEcoCoresFailed}"
  by (simp add: updateEcoCoresList_def serialize_def Let_def emit_def)

lemma eraseEntry_only:
  "\<exists>evs. events (eraseEntry env k st) = events st @ evs
     \<and> set evs \<subseteq> {ManagerSerialize, Log SerializeEcoCoresFailed}"
  using updateEcoCoresList_only[of env False _ st]
  by (auto simp: eraseEntry_def Let_def split: option.splits)

lemma resolveEntry_raises:
  assumes "resolveEntry env False k st = (x, st')"
  shows "\<exists>evs. events st' = events st @ evs
           \<and> (\<forall>k' c. EntryResolved k' c \<in> set evs \<longrightarrow> \<not> resolveRaises env k')
           \<and> (\<forall>j. Log (DeleteEntryFailed j) \<notin> set evs)"
    and "x \<noteq> None \<longleftrightarrow> (\<exists>e. map_of (isolatedHardwares st) k = Some e \<and> \<not> resolved e \<and> resolveRaises env k)"
proof -
  show "x \<noteq> None \<longleftrightarrow> (\<exists>e. map_of (isolatedHardwares st) k = Some e \<and> \<not> resolved e \<and> resolveRaises env k)"
    using assms by (auto simp: resolveEntry_def Let_def split: option.splits if_splits)
  show "\<exists>evs. events st' = events st @ evs
           \<and> (\<forall>k' c. EntryResolved k' c \<in> set evs \<longrightarrow> \<not> resolveRaises env k')
           \<and> (\<forall>j. Log (DeleteEntryFailed j) \<notin> set evs)"
  proof (cases "\<exists>e. map_of (isolatedHardwares st) k = Some e \<and> \<not> resolved e \<and> \<not> resolveRaises env k")
    case True
    then obtain e where e: "map_of (isolatedHardwares st) k = Some e" "\<not> resolved e" "\<not> resolveRaises env k"
      by blast
    then have s: "st' = eraseEntry env k (emit (EntryResolved k False) st)"
      using assms by (simp add: resolveEntry_def)
    obtain evs where v: "events st' = events (emit (EntryResolved k False) st) @ evs"
      "set evs \<subseteq> {ManagerSerialize, Log SerializeEcoCoresFailed}"
      using eraseEntry_only[of env k "emit (EntryResolved k False) st"] s by auto
    have "events st' = events st @ (EntryResolved k False # evs)" using v(1) by simp
    moreover have "\<forall>k' c. EntryResolved k' c \<in> set (EntryResolved k False # evs) \<longrightarrow> \<not> resolveRaises env k'"
      using v(2) e(3) by auto
    moreover have "\<forall>j. Log (DeleteEntryFailed j) \<notin> set (EntryResolved k False # evs)"
      using v(2) by auto
    ultimately show ?thesis by blast
  next
    case False
    then have "st' = st" using assms
      by (auto simp: resolveEntry_def Let_def split: option.splits if_splits)
    then show ?thesis by simp
  qed
qed

lemma resolveEntries_raises:
  "\<exists>evs. events (resolveEntries env False ks st) = events st @ evs
     \<and> (\<forall>k c. EntryResolved k c \<in> set evs \<longrightarrow> \<not> resolveRaises env k)
     \<and> (\<forall>k. Log (DeleteEntryFailed k) \<in> set evs \<longrightarrow> k \<in> set ks \<and> resolveRaises env k)
     \<and> (\<forall>k e. k \<in> set ks \<and> map_of (isolatedHardwares st) k = Some e \<and> \<not> resolved e \<and> resolveRaises env k
                  \<longrightarrow> Log (DeleteEntryFailed k) \<in> set evs)"
proof (induction ks arbitrary: st)
  case Nil
  show ?case by simp
next
  case (Cons k ks)
  obtain x st1 where r: "resolveEntry env False k st = (x, st1)"
    by (cases "resolveEntry env False k st")
  note f = resolveEntry_False[OF r]
  note g = resolveEntry_raises[OF r]
  let ?st2 = "case x of None \<Rightarrow> st1 | Some y \<Rightarrow> emit (Log (DeleteEntryFailed k)) st1"
  have step: "resolveEntries env False (k # ks) st = resolveEntries env False ks ?st2"
    using r by (simp split: option.splits)
  have m: "isolatedHardwares ?st2 = isolatedHardwares st1" by (cases x) auto
  obtain evs2 where e2: "events ?st2 = events st @ evs2"
    "\<forall>k' c. EntryResolved k' c \<in> set evs2 \<longrightarrow> \<not> resolveRaises env k'"
    "\<forall>j. Log (DeleteEntryFailed j) \<in> set evs2 \<longrightarrow> j = k \<and> x \<noteq> None"
    "x \<noteq> None \<longrightarrow> Log (DeleteEntryFailed k) \<in> set evs2"
  proof (cases x)
    case None
    obtain evs where "events st1 = events st @ evs"
      "\<forall>k' c. EntryResolved k' c \<in> set evs \<longrightarrow> \<not> resolveRaises env k'"
      "\<forall>j. Log (DeleteEntryFailed j) \<notin> set evs"
      using g(1) by blast
    then show ?thesis using that[of evs] None by simp
  next
    case (Some y)
    obtain evs where "events st1 = events st @ evs"
      "\<forall>k' c. EntryResolved k' c \<in> set evs \<longrightarrow> \<not> resolveRaises env k'"
      "\<forall>j. Log (DeleteEntryFailed j) \<notin> set evs"
      using g(1) by blast
    then show ?thesis using that[of "evs @ [Log (DeleteEntryFailed k)]"] Some by (simp add: emit_def)
  qed
  obtain evs3 where e3: "events (resolveEntries env False ks ?st2) = events ?st2 @ evs3"
    "\<forall>k c. EntryResolved k c \<in> set evs3 \<longrightarrow> \<not> resolveRaises env k"
    "\<forall>k. Log (DeleteEntryFailed k) \<in> set evs3 \<longrightarrow> k \<in> set ks \<and> resolveRaises env k"
    "\<forall>k e. k \<in> set ks \<and> map_of (isolatedHardwares ?st2) k = Some e \<and> \<not> resolved e \<and> resolveRaises env k
                  \<longrightarrow> Log (DeleteEntryFailed k) \<in> set evs3"
    using Cons.IH[of ?st2] by blast
  have a: "events (resolveEntries env False (k # ks) st) = events st @ (evs2 @ evs3)"
    unfolding step using e2(1) e3(1) by simp
  have b: "\<forall>k c. EntryResolved k c \<in> set (evs2 @ evs3) \<longrightarrow> \<not> resolveRaises env k"
    using e2(2) e3(2) by auto
  have c: "\<forall>j. Log (DeleteEntryFailed j) \<in> set (evs2 @ evs3) \<longrightarrow> j \<in> set (k # ks) \<and> resolveRaises env j"
    using e2(3) e3(3) g(2) by auto
  have d: "\<forall>k' e. k' \<in> set (k # ks) \<and> map_of (isolatedHardwares st) k' = Some e \<and> \<not> resolved e \<and> resolveRaises env k'
                  \<longrightarrow> Log (DeleteEntryFailed k') \<in> set (evs2 @ evs3)"
  proof (intro allI impI)
    fix k' e assume h: "k' \<in> set (k # ks) \<and> map_of (isolatedHardwares st) k' = Some e \<and> \<not> resolved e \<and> resolveRaises env k'"
    show "Log (DeleteEntryFailed k') \<in> set (evs2 @ evs3)"
    proof (cases "k' = k")
      case True
      then have "x \<noteq> None" using g(2) h by blast
      then show ?thesis using e2(4) True by simp
    next
      case False
      with h have "k' \<in> set ks" by simp
      moreover have "map_of (isolatedHardwares ?st2) k' = Some e"
        using f(3)[OF False] h m by simp
      ultimately show ?thesis using e3(4) h by auto
    qed
  qed
  show ?case using a b c d by blast
qed

text \<open>
  C1, as stated: with no record in the guard store and entries in the map, the pass
  resolves every entry. The entry of key 1 below is not resolved: its
  \<open>resolveEntry\<close> raises, \<open>resolveAllEntries\<close> catches and logs that, and the map is
  cleared all the same, so the entry leaves the map without having been resolved.
\<close>

theorem full_reset_drops_unresolved:
  "timerObjs one_entry_state \<noteq> []
   \<and> guard_getAll sample_env (guardStore one_entry_state) = []
   \<and> map fst (isolatedHardwares one_entry_state) = [1]
   \<and> handleHostIsolatedHardwares (sample_env\<lparr>resolveRaises := \<lambda>k. True\<rparr>) 10 one_entry_state =
       (None, one_entry_state\<lparr>isolatedHardwares := [],
                timerObjs := [\<lparr>timerInterval = 5, timerEnabled = True\<rparr>],
                events := [GuardGetAll, Log (DeleteEntryFailed 1)]\<rparr>)"
  by (simp add: handleHostIsolatedHardwares_def one_entry_state_def sample_env_def guardGetAll_def
      resolveAllEntries_def resolveEntry_def emit_def Let_def)

text \<open>
  C1, amended. A timer fires, the guard store lists no record and the map has entries.
  Then the pass raises nothing and ends with an empty map and the guard store as it was
  (no record is cleared); after reading the records it causes resolution events only, so
  no record is looked up in the catalog and no entry is updated or created; every entry
  that was not yet resolved and whose \<open>resolveEntry\<close> does not raise has been resolved
  with \<open>clearRecord\<close> false; and every such entry whose \<open>resolveEntry\<close> raises has
  that logged and has not been resolved.
\<close>

theorem full_reset:
  assumes "timerObjs st = t # ts" and "guard_getAll env (guardStore st) = []"
    and "isolatedHardwares st \<noteq> []"
  shows "fst (handleHostIsolatedHardwares env now st) = None
    \<and> isolatedHardwares (snd (handleHostIsolatedHardwares env now st)) = []
    \<and> guardStore (snd (handleHostIsolatedHardwares env now st)) = guardStore st
    \<and> (\<exists>evs. events (snd (handleHostIsolatedHardwares env now st)) = events st @ GuardGetAll # evs
          \<and> list_all resolutionEvent evs
          \<and> (\<forall>k e. map_of (isolatedHardwares st) k = Some e \<and> \<not> resolved e \<and> \<not> resolveRaises env k
                \<longrightarrow> EntryResolved k False \<in> set evs)
          \<and> (\<forall>k e. map_of (isolatedHardwares st) k = Some e \<and> \<not> resolved e \<and> resolveRaises env k
                \<longrightarrow> Log (DeleteEntryFailed k) \<in> set evs \<and> EntryResolved k False \<notin> set evs))"
proof -
  let ?st1 = "emit GuardGetAll (st\<lparr>timerObjs := ts\<rparr>)"
  let ?ks = "map fst (isolatedHardwares st)"
  have h: "handleHostIsolatedHardwares env now st =
      (None, (resolveAllEntries env False ?st1)\<lparr>isolatedHardwares := []\<rparr>)"
    using assms by (simp add: handleHostIsolatedHardwares_def guardGetAll_def Let_def)
  obtain evs where e: "events (resolveEntries env False ?ks ?st1) = events ?st1 @ evs"
    "list_all resolutionEvent evs"
    "\<forall>k e. k \<in> set ?ks \<and> map_of (isolatedHardwares ?st1) k = Some e \<and> \<not> resolved e \<and> \<not> resolveRaises env k
                  \<longrightarrow> EntryResolved k False \<in> set evs"
    using resolveEntries_False[of env ?ks ?st1] by blast
  obtain evs' where e': "events (resolveEntries env False ?ks ?st1) = events ?st1 @ evs'"
    "\<forall>k c. EntryResolved k c \<in> set evs' \<longrightarrow> \<not> resolveRaises env k"
    "\<forall>k e. k \<in> set ?ks \<and> map_of (isolatedHardwares ?st1) k = Some e \<and> \<not> resolved e \<and> resolveRaises env k
                  \<longrightarrow> Log (DeleteEntryFailed k) \<in> set evs'"
    using resolveEntries_raises[of env ?ks ?st1] by blast
  have same: "evs' = evs" using e(1) e'(1) by simp
  have kin: "k \<in> set ?ks" if "map_of (isolatedHardwares st) k = Some e" for k e
    using that by (metis map_of_eq_None_iff option.distinct(1) set_map)
  have r1: "\<forall>k e. map_of (isolatedHardwares st) k = Some e \<and> \<not> resolved e \<and> \<not> resolveRaises env k
                \<longrightarrow> EntryResolved k False \<in> set evs"
    using e(3) kin by auto
  have r2: "\<forall>k e. map_of (isolatedHardwares st) k = Some e \<and> \<not> resolved e \<and> resolveRaises env k
                \<longrightarrow> Log (DeleteEntryFailed k) \<in> set evs \<and> EntryResolved k False \<notin> set evs"
    using e'(2,3) kin unfolding same by auto
  show ?thesis unfolding h using e(1,2) r1 r2 by (simp add: resolveAllEntries_def)
qed

theorem full_reset_witness:
  "isolatedHardwares (snd (handleHostIsolatedHardwares (sample_env\<lparr>resolveRaises := \<lambda>k. k = 1\<rparr>) 0
      (sample_state\<lparr>isolatedHardwares :=
           [(1, \<lparr>entryRecId = 1, severity = Warning, resolved = False, associations = [],
                 entityPath = [1], elapsed = 3\<rparr>),
            (2, \<lparr>entryRecId = 2, severity = Critical, resolved = False, associations = [],
                 entityPath = [2], elapsed = 4\<rparr>)],
         timerObjs := [\<lparr>timerInterval = 5, timerEnabled = True\<rparr>]\<rparr>))) = []
   \<and> {Log (DeleteEntryFailed 1), EntryResolved 2 False} \<subseteq>
       set (events (snd (handleHostIsolatedHardwares (sample_env\<lparr>resolveRaises := \<lambda>k. k = 1\<rparr>) 0
      (sample_state\<lparr>isolatedHardwares :=
           [(1, \<lparr>entryRecId = 1, severity = Warning, resolved = False, associations = [],
                 entityPath = [1], elapsed = 3\<rparr>),
            (2, \<lparr>entryRecId = 2, severity = Critical, resolved = False, associations = [],
                 entityPath = [2], elapsed = 4\<rparr>)],
         timerObjs := [\<lparr>timerInterval = 5, timerEnabled = True\<rparr>]\<rparr>))))
   \<and> EntryResolved 1 False \<notin>
       set (events (snd (handleHostIsolatedHardwares (sample_env\<lparr>resolveRaises := \<lambda>k. k = 1\<rparr>) 0
      (sample_state\<lparr>isolatedHardwares :=
           [(1, \<lparr>entryRecId = 1, severity = Warning, resolved = False, associations = [],
                 entityPath = [1], elapsed = 3\<rparr>),
            (2, \<lparr>entryRecId = 2, severity = Critical, resolved = False, associations = [],
                 entityPath = [2], elapsed = 4\<rparr>)],
         timerObjs := [\<lparr>timerInterval = 5, timerEnabled = True\<rparr>]\<rparr>))))"
proof -
  let ?e1 = "\<lparr>entryRecId = 1, severity = Warning, resolved = False, associations = [],
                 entityPath = [1], elapsed = 3\<rparr>"
  let ?e2 = "\<lparr>entryRecId = 2, severity = Critical, resolved = False, associations = [],
                 entityPath = [2], elapsed = 4\<rparr>"
  let ?st = "sample_state\<lparr>isolatedHardwares := [(1, ?e1), (2, ?e2)],
         timerObjs := [\<lparr>timerInterval = 5, timerEnabled = True\<rparr>]\<rparr>"
  let ?env = "sample_env\<lparr>resolveRaises := \<lambda>k. k = 1\<rparr>"
  have h1: "timerObjs ?st = \<lparr>timerInterval = 5, timerEnabled = True\<rparr> # []" by simp
  have h2: "guard_getAll ?env (guardStore ?st) = []"
    by (simp add: sample_env_def sample_state_def)
  have h3: "isolatedHardwares ?st \<noteq> []" by simp
  have m: "map_of (isolatedHardwares ?st) 1 = Some ?e1 \<and> \<not> resolved ?e1 \<and> resolveRaises ?env 1"
    "map_of (isolatedHardwares ?st) 2 = Some ?e2 \<and> \<not> resolved ?e2 \<and> \<not> resolveRaises ?env 2"
    by simp_all
  from full_reset[OF h1 h2 h3, of 0] obtain evs where
    a: "isolatedHardwares (snd (handleHostIsolatedHardwares ?env 0 ?st)) = []"
    and b: "events (snd (handleHostIsolatedHardwares ?env 0 ?st)) = events ?st @ GuardGetAll # evs"
    and c: "\<forall>k e. map_of (isolatedHardwares ?st) k = Some e \<and> \<not> resolved e \<and> \<not> resolveRaises ?env k
                \<longrightarrow> EntryResolved k False \<in> set evs"
    and d: "\<forall>k e. map_of (isolatedHardwares ?st) k = Some e \<and> \<not> resolved e \<and> resolveRaises ?env k
                \<longrightarrow> Log (DeleteEntryFailed k) \<in> set evs \<and> EntryResolved k False \<notin> set evs"
    by blast
  from c m(2) have r2: "EntryResolved 2 False \<in> set evs" by blast
  from d m(1) have r1: "Log (DeleteEntryFailed 1) \<in> set evs" "EntryResolved 1 False \<notin> set evs"
    by blast+
  have ev: "events ?st = []" by (simp add: sample_state_def)
  show ?thesis using a b r1 r2 ev by simp
qed

section \<open>The pass and the map of the entries\<close>

lemma resolveEntry_E:
  "fst (resolveEntry env c k st) = fst (resolveEntryE env k (isolatedHardwares st))"
  "isolatedHardwares (snd (resolveEntry env c k st)) = snd (resolveEntryE env k (isolatedHardwares st))"
  by (simp_all add: resolveEntry_def resolveEntryE_def Let_def split: option.splits)

lemma updateEntryForRecord_E:
  "isolatedHardwares (updateEntryForRecord env now r k st) =
     updateEntryForRecordE env now r k (isolatedHardwares st)"
  by (simp add: updateEntryForRecord_def updateEntryForRecordE_def recordFields_def Let_def
      refresh_def[abs_def] split: option.splits prod.splits)

lemma reconcileEntry_E:
  "fst (reconcileEntry env now records k st) = fst (reconcileEntryE env now records k (isolatedHardwares st))"
  "isolatedHardwares (snd (reconcileEntry env now records k st)) =
     snd (reconcileEntryE env now records k (isolatedHardwares st))"
  by (simp_all add: reconcileEntry_def reconcileEntryE_def Let_def resolveEntry_E
      updateEntryForRecord_E split: option.splits)

lemma reconcileEntries_E:
  "fst (reconcileEntries env now records ks st) = fst (reconcileEntriesE env now records ks (isolatedHardwares st))
   \<and> isolatedHardwares (snd (reconcileEntries env now records ks st)) =
     snd (reconcileEntriesE env now records ks (isolatedHardwares st))"
proof (induction ks arbitrary: st)
  case Nil
  show ?case by simp
next
  case (Cons k ks)
  obtain x st1 where a: "reconcileEntry env now records k st = (x, st1)"
    by (cases "reconcileEntry env now records k st")
  obtain y es1 where b: "reconcileEntryE env now records k (isolatedHardwares st) = (y, es1)"
    by (cases "reconcileEntryE env now records k (isolatedHardwares st)")
  from reconcileEntry_E[of env now records k st] a b have c: "y = x" "es1 = isolatedHardwares st1"
    by simp_all
  show ?case using a b c Cons.IH[of st1] by (cases x) simp_all
qed

lemma createEntryForRecord_E:
  "isolatedHardwares (createEntryForRecord env now r False st) =
     createEntryForRecordE env now r (isolatedHardwares st)"
  by (simp add: createEntryForRecord_def createEntryForRecordE_def recordFields_def Let_def
      createEntry_def entryOfRecord_def split: option.splits prod.splits)

lemma createEntryIfNotExists_E:
  "isolatedHardwares (createEntryIfNotExists env now r st) =
     createEntryIfNotExistsE env now r (isolatedHardwares st)"
  by (simp add: createEntryIfNotExists_def createEntryIfNotExistsE_def createEntryForRecord_E)

lemma fold_createEntryIfNotExists_E:
  "isolatedHardwares (fold (createEntryIfNotExists env now) rs st) =
     fold (createEntryIfNotExistsE env now) rs (isolatedHardwares st)"
  by (induction rs arbitrary: st) (simp_all add: createEntryIfNotExists_E)

lemma cleanupEcoCores_entries [simp]:
  "isolatedHardwares (snd (cleanupEcoCores env ps (u, st))) = isolatedHardwares st"
  by (induction ps arbitrary: u st) auto

lemma cleanupPersistedEcoCores_entries [simp]:
  "isolatedHardwares (cleanupPersistedEcoCores env st) = isolatedHardwares st"
proof -
  obtain u st1 where c: "cleanupEcoCores env (persistedEcoCores st) (False, st) = (u, st1)"
    by (cases "cleanupEcoCores env (persistedEcoCores st) (False, st)")
  have "isolatedHardwares st1 = isolatedHardwares st"
    using cleanupEcoCores_entries[of env "persistedEcoCores st" False st] c by simp
  then show ?thesis using c by (simp add: cleanupPersistedEcoCores_def)
qed

lemma handleHostIsolatedHardwares_E:
  "timerObjs st \<noteq> [] \<Longrightarrow>
   isolatedHardwares (snd (handleHostIsolatedHardwares env now st)) =
     passE env now (guard_getAll env (guardStore st)) (isolatedHardwares st)"
proof -
  assume "timerObjs st \<noteq> []"
  then obtain t ts where t: "timerObjs st = t # ts" by (cases "timerObjs st") auto
  let ?st1 = "emit GuardGetAll (st\<lparr>timerObjs := ts\<rparr>)"
  let ?recs = "guard_getAll env (guardStore st)"
  obtain x st2 where a: "reconcileEntries env now ?recs (map fst (isolatedHardwares st)) ?st1 = (x, st2)"
    by (cases "reconcileEntries env now ?recs (map fst (isolatedHardwares st)) ?st1")
  obtain y es1 where b: "reconcileEntriesE env now ?recs (map fst (isolatedHardwares st)) (isolatedHardwares st) = (y, es1)"
    by (cases "reconcileEntriesE env now ?recs (map fst (isolatedHardwares st)) (isolatedHardwares st)")
  from reconcileEntries_E[of env now ?recs "map fst (isolatedHardwares st)" ?st1] a b
  have c: "y = x" "es1 = isolatedHardwares st2" by simp_all
  show ?thesis using t a b c
    by (cases x) (simp_all add: handleHostIsolatedHardwares_def passE_def guardGetAll_def Let_def
        fold_createEntryIfNotExists_E)
qed

section \<open>Running the pass again\<close>

subsection \<open>The operations on the map\<close>

lemma map_fst_map_modify [simp]: "map fst (map_modify k f xs) = map fst xs"
  by (induction xs) (auto simp: map_modify_def)

lemma map_fst_map_erase: "map fst (map_erase k xs) = filter (\<lambda>x. x \<noteq> k) (map fst xs)"
  by (induction xs) (auto simp: map_erase_def)

lemma distinct_map_erase: "distinct (map fst xs) \<Longrightarrow> distinct (map fst (map_erase k xs))"
  by (simp add: map_fst_map_erase)

lemma set_map_insert:
  "set (map_insert k v xs) = (if k \<in> fst ` set xs then set xs else insert (k, v) (set xs))"
  by (simp add: map_insert_def set_insort_key)

lemma distinct_map_insert:
  "distinct (map fst xs) \<Longrightarrow> distinct (map fst (map_insert k v xs))"
  by (simp add: map_insert_def distinct_insort_key)

lemma map_of_map_modify:
  "map_of (map_modify k f xs) k' = (if k' = k then map_option f (map_of xs k) else map_of xs k')"
  by (induction xs) (auto simp: map_modify_def)

lemma map_modify_id:
  "distinct (map fst xs) \<Longrightarrow> map_of xs k = Some e \<Longrightarrow> f e = e \<Longrightarrow> map_modify k f xs = xs"
proof -
  assume d: "distinct (map fst xs)" and m: "map_of xs k = Some e" and f: "f e = e"
  have "\<forall>p \<in> set xs. (if fst p = k then (fst p, f (snd p)) else p) = p"
  proof
    fix p assume p: "p \<in> set xs"
    show "(if fst p = k then (fst p, f (snd p)) else p) = p"
    proof (cases "fst p = k")
      case True
      then have "map_of xs k = Some (snd p)" using d p by (cases p) auto
      with m f True show ?thesis by (cases p) auto
    next
      case False then show ?thesis by simp
    qed
  qed
  then show ?thesis unfolding map_modify_def by (simp add: map_idI)
qed


subsection \<open>One step of the loop\<close>

lemma refresh_fields [simp]:
  "severity (refresh sev assoc now e) = sev"
  "associations (refresh sev assoc now e) = assoc"
  "entityPath (refresh sev assoc now e) = entityPath e"
  "resolved (refresh sev assoc now e) = resolved e"
  "entryRecId (refresh sev assoc now e) = entryRecId e"
  by (simp_all add: refresh_def setElapsedIfUpdated_def setSeverityAndAssociations_def Let_def)

lemma refresh_id: "severity e = sev \<Longrightarrow> associations e = assoc \<Longrightarrow> refresh sev assoc now e = e"
  by (simp add: refresh_def setElapsedIfUpdated_def setSeverityAndAssociations_def updated_def)

lemma validEntryRecords_cong:
  "entityPath e' = entityPath e \<Longrightarrow> validEntryRecords records e' = validEntryRecords records e"
  by (simp add: validEntryRecords_def)

lemma reconcileEntryE_char:
  assumes "map_of es k = Some e"
  shows "reconcileEntryE env now records k es =
     (if validEntryRecords records e = [] then resolveEntryE env k es
      else if length (validEntryRecords records e) = 1
      then (None, updateEntryForRecordE env now (hd (validEntryRecords records e)) k es)
      else (None, es))"
proof (cases "filter (\<lambda>record. entityPath e = targetId record) records = []")
  case True
  then have "validEntryRecords records e = []" unfolding validEntryRecords_def by simp
  with True assms show ?thesis by (simp add: reconcileEntryE_def)
next
  case False
  with assms show ?thesis
    unfolding reconcileEntryE_def validEntryRecords_def Let_def by simp
qed

lemma reconcileEntryE_absent:
  "map_of es k = None \<Longrightarrow> reconcileEntryE env now records k es = (None, es)"
  by (simp add: reconcileEntryE_def)

lemma settled_none: "validEntryRecords records e = [] \<Longrightarrow> settled env records e = resolved e"
  unfolding settled_def Let_def by simp

lemma settled_one:
  "validEntryRecords records e \<noteq> [] \<Longrightarrow> length (validEntryRecords records e) = 1 \<Longrightarrow>
   settled env records e =
     (case recordFields env (hd (validEntryRecords records e)) of
        None \<Rightarrow> True
      | Some (sev, assoc) \<Rightarrow> severity e = sev \<and> associations e = assoc)"
  unfolding settled_def Let_def by (simp only: if_False if_True simp_thms)

lemma settled_many:
  "validEntryRecords records e \<noteq> [] \<Longrightarrow> length (validEntryRecords records e) \<noteq> 1 \<Longrightarrow>
   settled env records e"
  unfolding settled_def Let_def by (simp only: if_False if_True simp_thms)

lemma step_settled:
  assumes "distinct (map fst es)" and "map_of es k = Some e" and "settled env records e"
  shows "reconcileEntryE env now records k es = (None, es)"
proof -
  let ?vs = "validEntryRecords records e"
  show ?thesis
  proof (cases "?vs = []")
    case True
    then have "resolved e" using assms(3) by (simp add: settled_none)
    then show ?thesis using True assms(2)
      by (simp add: reconcileEntryE_char resolveEntryE_def)
  next
    case False
    show ?thesis
    proof (cases "length ?vs = 1")
      case l: True
      show ?thesis
      proof (cases "recordFields env (hd ?vs)")
        case None
        then show ?thesis using False l assms(2)
          by (simp add: reconcileEntryE_char updateEntryForRecordE_def)
      next
        case (Some sa)
        obtain sev assoc where sa: "sa = (sev, assoc)" by (cases sa)
        have "severity e = sev \<and> associations e = assoc"
          using assms(3) Some sa unfolding settled_one[OF False l] by simp
        then have "refresh sev assoc now e = e" by (simp add: refresh_id)
        then have "map_modify k (refresh sev assoc now) es = es"
          using map_modify_id[OF assms(1,2)] by simp
        then show ?thesis using False l assms(2) Some sa
          by (simp add: reconcileEntryE_char updateEntryForRecordE_def)
      qed
    next
      case False
      then show ?thesis using \<open>?vs \<noteq> []\<close> assms(2) by (simp add: reconcileEntryE_char)
    qed
  qed
qed

lemma step_result:
  assumes "map_of es k = Some e" and "reconcileEntryE env now records k es = (x, es')"
  shows "x \<noteq> None \<Longrightarrow> es' = es \<and> reconcileEntryE env now' records k es = (x, es)"
    and "x = None \<Longrightarrow> map_of es' k = None \<or> (\<exists>e'. map_of es' k = Some e' \<and> settled env records e')"
proof -
  let ?vs = "validEntryRecords records e"
  have c: "reconcileEntryE env n records k es =
     (if ?vs = [] then resolveEntryE env k es
      else if length ?vs = 1
      then (None, updateEntryForRecordE env n (hd ?vs) k es)
      else (None, es))" for n
    by (rule reconcileEntryE_char[OF assms(1)])
  have rs: "resolveEntryE env k es =
      (if resolved e then (None, es)
       else if resolveRaises env k then (Some OtherException, es)
       else (None, map_erase k es))"
    using assms(1) by (simp add: resolveEntryE_def)
  show "x \<noteq> None \<Longrightarrow> es' = es \<and> reconcileEntryE env now' records k es = (x, es)"
  proof -
    assume xs: "x \<noteq> None"
    have v: "?vs = []"
      using assms(2) xs unfolding c[of now] by (auto split: if_splits)
    have r: "resolveEntryE env k es = (x, es')"
      using assms(2) unfolding c[of now] using v by simp
    have r': "reconcileEntryE env now' records k es = resolveEntryE env k es"
      unfolding c[of now'] using v by simp
    have "es' = es" using r xs unfolding rs by (auto split: if_splits)
    then show ?thesis using r r' by simp
  qed
  show "x = None \<Longrightarrow> map_of es' k = None \<or> (\<exists>e'. map_of es' k = Some e' \<and> settled env records e')"
  proof -
    assume xn: "x = None"
    show ?thesis
    proof (cases "?vs = []")
      case True
      have r: "resolveEntryE env k es = (None, es')"
        using assms(2) xn unfolding c[of now] using True by simp
      show ?thesis
      proof (cases "resolved e")
        case re: True
        then have "es' = es" using r unfolding rs by simp
        moreover have "settled env records e" using True re by (simp add: settled_none)
        ultimately show ?thesis using assms(1) by simp
      next
        case nre: False
        then have "es' = map_erase k es" using r unfolding rs by (auto split: if_splits)
        then show ?thesis by simp
      qed
    next
      case False
      show ?thesis
      proof (cases "length ?vs = 1")
        case l: True
        have u: "es' = updateEntryForRecordE env now (hd ?vs) k es"
          using assms(2) unfolding c[of now] using False l by simp
        show ?thesis
        proof (cases "recordFields env (hd ?vs)")
          case None
          then have "es' = es" using u by (simp add: updateEntryForRecordE_def)
          moreover have "settled env records e" using None by (simp add: settled_one[OF False l])
          ultimately show ?thesis using assms(1) by simp
        next
          case (Some sa)
          obtain sev assoc where sa: "sa = (sev, assoc)" by (cases sa)
          have es': "es' = map_modify k (refresh sev assoc now) es"
            using u Some sa by (simp add: updateEntryForRecordE_def)
          have m: "map_of es' k = Some (refresh sev assoc now e)"
            unfolding es' using assms(1) by (simp add: map_of_map_modify)
          have v: "validEntryRecords records (refresh sev assoc now e) = ?vs"
            by (rule validEntryRecords_cong) simp
          have "settled env records (refresh sev assoc now e)"
            using settled_one[of records "refresh sev assoc now e" env] False l Some sa
            unfolding v by simp
          with m show ?thesis by simp
        qed
      next
        case nl: False
        then have "es' = es" using assms(2) unfolding c[of now] using False by simp
        moreover have "settled env records e" by (rule settled_many[OF False nl])
        ultimately show ?thesis using assms(1) by simp
      qed
    qed
  qed
qed

lemma step_raises_again:
  fixes env env' :: "'g env"
  assumes "map_of es k = Some e" and "reconcileEntryE env now records k es = (x, es')"
    and "x \<noteq> None" and "resolveRaises env k \<longrightarrow> resolveRaises env' k"
  shows "es' = es \<and> reconcileEntryE env' now' records k es = (x, es)"
proof -
  let ?vs = "validEntryRecords records e"
  have c: "reconcileEntryE v n records k es =
     (if ?vs = [] then resolveEntryE v k es
      else if length ?vs = 1
      then (None, updateEntryForRecordE v n (hd ?vs) k es)
      else (None, es))" for n and v :: "'g env"
    by (rule reconcileEntryE_char[OF assms(1)])
  have rs: "resolveEntryE v k es =
      (if resolved e then (None, es)
       else if resolveRaises v k then (Some OtherException, es)
       else (None, map_erase k es))" for v :: "'g env"
    using assms(1) by (simp add: resolveEntryE_def)
  have v: "?vs = []"
    using assms(2,3) unfolding c[of env now] by (auto split: if_splits)
  have r: "resolveEntryE env k es = (x, es')"
    using assms(2) unfolding c[of env now] using v by simp
  have r': "reconcileEntryE env' now' records k es = resolveEntryE env' k es"
    unfolding c[of env' now'] using v by simp
  have a: "\<not> resolved e" "resolveRaises env k" "x = Some OtherException" "es' = es"
    using r assms(3) unfolding rs[of env] by (auto split: if_splits)
  then have "resolveEntryE env' k es = (x, es)"
    using assms(4) unfolding rs[of env'] by simp
  then show ?thesis using a(4) r' by simp
qed

lemma settled_env:
  "recordFields env' = recordFields env \<Longrightarrow> settled env' records e = settled env records e"
  by (simp add: settled_def)

lemma step_other:
  "k' \<noteq> k \<Longrightarrow> map_of (snd (reconcileEntryE env now records k es)) k' = map_of es k'"
  by (auto simp: reconcileEntryE_def resolveEntryE_def updateEntryForRecordE_def Let_def
      map_of_map_modify split: option.splits)

lemma step_keys:
  "\<exists>P. map fst (snd (reconcileEntryE env now records k es)) = filter P (map fst es)"
proof -
  have a: "\<exists>P. map fst es = filter P (map fst es)" by (rule exI[of _ "\<lambda>_. True"]) simp
  have b: "\<exists>P. map fst (map_erase k es) = filter P (map fst es)"
    using map_fst_map_erase by blast
  show ?thesis using a b
    by (auto simp: reconcileEntryE_def resolveEntryE_def updateEntryForRecordE_def Let_def
        split: option.splits)
qed

lemma step_distinct:
  "distinct (map fst es) \<Longrightarrow> distinct (map fst (snd (reconcileEntryE env now records k es)))"
  using step_keys[of env now records k es] by auto

lemma step_subset:
  "fst ` set (snd (reconcileEntryE env now records k es)) \<subseteq> fst ` set es"
proof -
  obtain P where "map fst (snd (reconcileEntryE env now records k es)) = filter P (map fst es)"
    using step_keys by blast
  then have "set (map fst (snd (reconcileEntryE env now records k es))) \<subseteq> set (map fst es)"
    by simp
  then show ?thesis by simp
qed

subsection \<open>The loop\<close>

lemma loop_step:
  "reconcileEntriesE env now records (k # ks) es =
     (if fst (reconcileEntryE env now records k es) = None
      then reconcileEntriesE env now records ks (snd (reconcileEntryE env now records k es))
      else reconcileEntryE env now records k es)"
  by (cases "reconcileEntryE env now records k es") (auto split: option.splits)

lemma loop_other:
  "k \<notin> set ks \<Longrightarrow> map_of (snd (reconcileEntriesE env now records ks es)) k = map_of es k"
proof (induction ks arbitrary: es)
  case Nil
  show ?case by simp
next
  case (Cons j ks)
  then have "j \<noteq> k" "k \<notin> set ks" by auto
  then show ?case
    using Cons.IH[of "snd (reconcileEntryE env now records j es)"] step_other[of k j env now records es]
    by (simp only: loop_step split: if_splits) auto
qed

lemma loop_keys:
  "\<exists>P. map fst (snd (reconcileEntriesE env now records ks es)) = filter P (map fst es)"
proof (induction ks arbitrary: es)
  case Nil
  show ?case by (auto intro: exI[of _ "\<lambda>_. True"])
next
  case (Cons j ks)
  let ?es = "snd (reconcileEntryE env now records j es)"
  obtain P where p: "map fst ?es = filter P (map fst es)" using step_keys by blast
  obtain Q where q: "map fst (snd (reconcileEntriesE env now records ks ?es)) = filter Q (map fst ?es)"
    using Cons.IH by blast
  have "map fst (snd (reconcileEntriesE env now records ks ?es)) = filter (\<lambda>x. Q x \<and> P x) (map fst es)"
    unfolding q p by (simp add: conj_commute)
  then show ?case using p by (simp only: loop_step split: if_splits) blast
qed

lemma loop_distinct:
  "distinct (map fst es) \<Longrightarrow> distinct (map fst (snd (reconcileEntriesE env now records ks es)))"
  using loop_keys[of env now records ks es] by auto

lemma loop_subset:
  "fst ` set (snd (reconcileEntriesE env now records ks es)) \<subseteq> fst ` set es"
proof -
  obtain P where "map fst (snd (reconcileEntriesE env now records ks es)) = filter P (map fst es)"
    using loop_keys by blast
  then have "set (map fst (snd (reconcileEntriesE env now records ks es))) \<subseteq> set (map fst es)"
    by simp
  then show ?thesis by simp
qed

lemma absent_iff: "map_of es k = None \<longleftrightarrow> k \<notin> fst ` set es"
  by (simp add: map_of_eq_None_iff)

lemma loop_absent:
  "map_of es k = None \<Longrightarrow> map_of (snd (reconcileEntriesE env now records ks es)) k = None"
  using loop_subset[of env now records ks es] unfolding absent_iff by auto

lemma loop_settled_stable:
  "distinct (map fst es) \<Longrightarrow> map_of es k = Some e \<Longrightarrow> settled env records e \<Longrightarrow>
     map_of (snd (reconcileEntriesE env now records ks es)) k = Some e"
proof (induction ks arbitrary: es)
  case Nil
  then show ?case by simp
next
  case (Cons j ks)
  let ?es = "snd (reconcileEntryE env now records j es)"
  have m: "map_of ?es k = Some e"
  proof (cases "j = k")
    case True
    then show ?thesis using step_settled[OF Cons.prems] Cons.prems(2) by simp
  next
    case False
    then show ?thesis using step_other[of k j env now records es] Cons.prems(2) by simp
  qed
  have d: "distinct (map fst ?es)" using step_distinct Cons.prems(1) by blast
  show ?case using Cons.IH[OF d m Cons.prems(3)] m
    by (simp only: loop_step split: if_splits) auto
qed

lemma loop_all_settled:
  "distinct (map fst es) \<Longrightarrow> reconcileEntriesE env now records ks es = (None, es1) \<Longrightarrow>
     k \<in> set ks \<Longrightarrow> map_of es1 k = Some e \<Longrightarrow> settled env records e"
proof (induction ks arbitrary: es)
  case Nil
  then show ?case by simp
next
  case (Cons j ks)
  obtain x es' where s: "reconcileEntryE env now records j es = (x, es')"
    by (cases "reconcileEntryE env now records j es")
  have xn: "x = None" using Cons.prems(2) s by (cases x) auto
  have l: "reconcileEntriesE env now records ks es' = (None, es1)"
    using Cons.prems(2) s xn by simp
  have d: "distinct (map fst es')" using step_distinct[OF Cons.prems(1), of env now records j] s by simp
  show ?case
  proof (cases "k = j")
    case True
    show ?thesis
    proof (cases "map_of es j")
      case None
      then have "map_of es' j = None" using s by (simp add: reconcileEntryE_absent)
      then have "map_of es1 j = None" using loop_absent[of es' j env now records ks] l by simp
      then show ?thesis using Cons.prems(4) True by simp
    next
      case (Some e0)
      from step_result(2)[OF Some s xn]
      show ?thesis
      proof
        assume "map_of es' j = None"
        then have "map_of es1 j = None" using loop_absent[of es' j env now records ks] l by simp
        then show ?thesis using Cons.prems(4) True by simp
      next
        assume "\<exists>e'. map_of es' j = Some e' \<and> settled env records e'"
        then obtain e' where e': "map_of es' j = Some e'" "settled env records e'" by blast
        have "map_of es1 j = Some e'"
          using loop_settled_stable[OF d e', of now ks] l by simp
        then show ?thesis using Cons.prems(4) True e'(2) by simp
      qed
    qed
  next
    case False
    then have "k \<in> set ks" using Cons.prems(3) by simp
    from Cons.IH[OF d l this Cons.prems(4)] show ?thesis .
  qed
qed

lemma loop_settled_noop:
  "distinct (map fst es) \<Longrightarrow> (\<forall>k e. map_of es k = Some e \<longrightarrow> settled env records e) \<Longrightarrow>
     reconcileEntriesE env now records ks es = (None, es)"
proof (induction ks)
  case Nil
  show ?case by simp
next
  case (Cons j ks)
  have "reconcileEntryE env now records j es = (None, es)"
  proof (cases "map_of es j")
    case None
    then show ?thesis by (simp add: reconcileEntryE_absent)
  next
    case (Some e)
    then show ?thesis using step_settled[OF Cons.prems(1) Some] Cons.prems(2) by blast
  qed
  then show ?case using Cons by simp
qed

lemma loop_again:
  fixes env env' :: "'g env"
  shows "distinct (map fst es) \<Longrightarrow> distinct ks \<Longrightarrow>
   recordFields env' = recordFields env \<Longrightarrow>
   \<forall>k. resolveRaises env k \<longrightarrow> resolveRaises env' k \<Longrightarrow>
   reconcileEntriesE env now records ks es = (x, es1) \<Longrightarrow>
   reconcileEntriesE env' now' records (filter (\<lambda>k. k \<in> fst ` set es1) ks) es1 = (x, es1)"
proof (induction ks arbitrary: es)
  case Nil
  then show ?case by simp
next
  case (Cons j ks)
  obtain y es' where s: "reconcileEntryE env now records j es = (y, es')"
    by (cases "reconcileEntryE env now records j es")
  have d: "distinct (map fst es')" using step_distinct[OF Cons.prems(1), of env now records j] s by simp
  have dk: "distinct ks" "j \<notin> set ks" using Cons.prems(2) by auto
  show ?case
  proof (cases y)
    case (Some z)
    have "map_of es j \<noteq> None"
    proof
      assume "map_of es j = None"
      then have "reconcileEntryE env now records j es = (None, es)"
        by (rule reconcileEntryE_absent)
      with s Some show False by simp
    qed
    then obtain e where e: "map_of es j = Some e" by blast
    have yn: "y \<noteq> None" using Some by simp
    have rr: "resolveRaises env j \<longrightarrow> resolveRaises env' j" using Cons.prems(4) by simp
    from step_raises_again[OF e s yn rr, of now']
    have a: "es' = es" "reconcileEntryE env' now' records j es = (y, es)" by simp_all
    have b: "x = y" "es1 = es" using Cons.prems(5) s Some a by simp_all
    have "j \<in> fst ` set es" using e by (metis absent_iff option.distinct(1))
    then show ?thesis using a b Some by simp
  next
    case None
    have l: "reconcileEntriesE env now records ks es' = (x, es1)"
      using Cons.prems(5) s None by simp
    note ih = Cons.IH[OF d dk(1) Cons.prems(3,4) l]
    show ?thesis
    proof (cases "map_of es1 j")
      case n: None
      then have "j \<notin> fst ` set es1" by (simp add: absent_iff)
      then show ?thesis using ih by simp
    next
      case (Some e1)
      then have j: "j \<in> fst ` set es1" by (metis absent_iff option.distinct(1))
      have m': "map_of es' j = Some e1"
        using loop_other[OF dk(2), of env now records es'] l Some by simp
      have "map_of es j \<noteq> None"
      proof
        assume "map_of es j = None"
        then have "es' = es" using s by (simp add: reconcileEntryE_absent)
        with \<open>map_of es j = None\<close> m' show False by simp
      qed
      then obtain e where e: "map_of es j = Some e" by blast
      from step_result(2)[OF e s None] m' have st: "settled env records e1" by auto
      then have st': "settled env' records e1" using settled_env[OF Cons.prems(3)] by simp
      have d1: "distinct (map fst es1)"
        using loop_distinct[OF d, of env now records ks] l by simp
      have "reconcileEntryE env' now' records j es1 = (None, es1)"
        by (rule step_settled[OF d1 Some st'])
      then show ?thesis using ih j by simp
    qed
  qed
qed

subsection \<open>The creation of entries\<close>

lemma create_noop:
  "createNoop env r es \<Longrightarrow> createEntryIfNotExistsE env now r es = es"
  by (auto simp: createNoop_def createEntryIfNotExistsE_def createEntryForRecordE_def
      list_all_iff map_insert_def split: option.splits)

lemma create_superset: "set es \<subseteq> set (createEntryIfNotExistsE env now r es)"
  by (auto simp: createEntryIfNotExistsE_def createEntryForRecordE_def set_map_insert
      split: option.splits)

lemma createNoop_mono: "createNoop env r es \<Longrightarrow> set es \<subseteq> set es' \<Longrightarrow> createNoop env r es'"
  unfolding createNoop_def by (meson image_mono subsetD)

lemma createNoop_env:
  "recordFields env' = recordFields env \<Longrightarrow>
   \<forall>k. entryCtorRaises env k \<longrightarrow> entryCtorRaises env' k \<Longrightarrow>
   createNoop env r es \<Longrightarrow> createNoop env' r es"
  unfolding createNoop_def by auto

lemma create_then_noop: "createNoop env r (createEntryIfNotExistsE env now r es)"
proof (cases "createNoop env r es")
  case True
  then show ?thesis by (simp add: create_noop)
next
  case False
  then obtain sev assoc where f: "recordFields env r = Some (sev, assoc)"
    and c: "\<not> entryCtorRaises env (recordId r)" and k: "recordId r \<notin> fst ` set es"
    and p: "\<forall>p \<in> set es. entityPath (snd p) \<noteq> targetId r"
    unfolding createNoop_def by auto
  have "createEntryIfNotExistsE env now r es = map_insert (recordId r) (entryOfRecord now r sev assoc) es"
    using f c p by (auto simp: createEntryIfNotExistsE_def createEntryForRecordE_def list_all_iff)
  then have "(recordId r, entryOfRecord now r sev assoc) \<in> set (createEntryIfNotExistsE env now r es)"
    using k by (simp add: set_map_insert)
  then show ?thesis unfolding createNoop_def
    by (intro disjI1 bexI[of _ "(recordId r, entryOfRecord now r sev assoc)"])
       (simp_all add: entryOfRecord_def)
qed

lemma create_distinct:
  "distinct (map fst es) \<Longrightarrow> distinct (map fst (createEntryIfNotExistsE env now r es))"
  by (auto simp: createEntryIfNotExistsE_def createEntryForRecordE_def distinct_map_insert
      split: option.splits)

lemma create_settled:
  assumes "isValidRecord (recordId r)" and "r \<in> set records"
    and "\<forall>p \<in> set es. settled env records (snd p)"
  shows "\<forall>p \<in> set (createEntryIfNotExistsE env now r es). settled env records (snd p)"
proof (cases "createNoop env r es")
  case True
  then show ?thesis using assms(3) by (simp add: create_noop)
next
  case False
  then obtain sev assoc where f: "recordFields env r = Some (sev, assoc)"
    and c: "\<not> entryCtorRaises env (recordId r)" and k: "recordId r \<notin> fst ` set es"
    and p: "\<forall>p \<in> set es. entityPath (snd p) \<noteq> targetId r"
    unfolding createNoop_def by auto
  let ?e = "entryOfRecord now r sev assoc"
  have eq: "createEntryIfNotExistsE env now r es = map_insert (recordId r) ?e es"
    using f c p by (auto simp: createEntryIfNotExistsE_def createEntryForRecordE_def list_all_iff)
  have in_vs: "r \<in> set (validEntryRecords records ?e)"
    using assms(1,2) by (simp add: validEntryRecords_def entryOfRecord_def)
  then have ne: "validEntryRecords records ?e \<noteq> []" by auto
  have "settled env records ?e"
  proof (cases "length (validEntryRecords records ?e) = 1")
    case True
    then obtain a where a: "validEntryRecords records ?e = [a]"
      by (cases "validEntryRecords records ?e") auto
    with in_vs have "hd (validEntryRecords records ?e) = r" by simp
    then show ?thesis using f unfolding settled_one[OF ne True]
      by (simp add: entryOfRecord_def)
  next
    case False
    then show ?thesis by (rule settled_many[OF ne])
  qed
  then show ?thesis using assms(3) unfolding eq by (auto simp: set_map_insert split: if_splits)
qed

lemma fold_create_superset: "set es \<subseteq> set (fold (createEntryIfNotExistsE env now) rs es)"
proof (induction rs arbitrary: es)
  case Nil show ?case by simp
next
  case (Cons r rs)
  show ?case using Cons.IH[of "createEntryIfNotExistsE env now r es"] create_superset[of es env now r]
    by auto
qed

lemma fold_create_noop_all:
  "r \<in> set rs \<Longrightarrow> createNoop env r (fold (createEntryIfNotExistsE env now) rs es)"
proof (induction rs arbitrary: es)
  case Nil then show ?case by simp
next
  case (Cons a rs)
  show ?case
  proof (cases "r = a")
    case True
    have "createNoop env a (createEntryIfNotExistsE env now a es)" by (rule create_then_noop)
    then show ?thesis using True createNoop_mono fold_create_superset by (metis fold_simps(2))
  next
    case False
    then have "r \<in> set rs" using Cons.prems by simp
    then show ?thesis using Cons.IH by simp
  qed
qed

lemma fold_create_noop:
  "(\<forall>r \<in> set rs. createNoop env r es) \<Longrightarrow> fold (createEntryIfNotExistsE env now) rs es = es"
  by (induction rs) (simp_all add: create_noop)

lemma fold_create_settled:
  "(\<forall>r \<in> set rs. isValidRecord (recordId r) \<and> r \<in> set records) \<Longrightarrow>
   (\<forall>p \<in> set es. settled env records (snd p)) \<Longrightarrow>
   (\<forall>p \<in> set (fold (createEntryIfNotExistsE env now) rs es). settled env records (snd p))"
proof (induction rs arbitrary: es)
  case Nil then show ?case by simp
next
  case (Cons r rs)
  have "\<forall>p \<in> set (createEntryIfNotExistsE env now r es). settled env records (snd p)"
    using create_settled[of r records es env now] Cons.prems by simp
  then show ?case using Cons.IH[of "createEntryIfNotExistsE env now r es"] Cons.prems(1) by simp
qed

lemma fold_create_distinct:
  "distinct (map fst es) \<Longrightarrow> distinct (map fst (fold (createEntryIfNotExistsE env now) rs es))"
  by (induction rs arbitrary: es) (simp_all add: create_distinct)

subsection \<open>The whole pass\<close>

lemma passE_distinct:
  assumes "distinct (map fst es)"
  shows "distinct (map fst (passE env now records es))"
proof -
  obtain x es1 where l: "reconcileEntriesE env now records (map fst es) es = (x, es1)"
    by (cases "reconcileEntriesE env now records (map fst es) es")
  have d1: "distinct (map fst es1)"
    using loop_distinct[OF assms, of env now records "map fst es"] l by simp
  show ?thesis using l d1 by (cases x) (simp_all add: passE_def fold_create_distinct)
qed

lemma passE_else:
  "\<not> (records = [] \<and> es \<noteq> []) \<Longrightarrow>
   passE env now records es =
     (case reconcileEntriesE env now records (map fst es) es of
        (Some x, es1) \<Rightarrow> es1
      | (None, es1) \<Rightarrow>
          fold (createEntryIfNotExistsE env now)
            (filter (\<lambda>record. isValidRecord (recordId record)) records) es1)"
  unfolding passE_def by (rule if_not_P)

lemma passE_again:
  fixes env env' :: "'g env"
  assumes "distinct (map fst es)"
    and lk: "recordFields env' = recordFields env"
    and rr: "\<forall>k. resolveRaises env k \<longrightarrow> resolveRaises env' k"
    and cr: "\<forall>k. entryCtorRaises env k \<longrightarrow> entryCtorRaises env' k"
  shows "passE env' now' records (passE env now records es) = passE env now records es"
proof (cases "records = [] \<and> es \<noteq> []")
  case True
  then show ?thesis by (simp add: passE_def)
next
  case False
  let ?valid = "filter (\<lambda>record. isValidRecord (recordId record)) records"
  obtain x es1 where l: "reconcileEntriesE env now records (map fst es) es = (x, es1)"
    by (cases "reconcileEntriesE env now records (map fst es) es")
  have d1: "distinct (map fst es1)"
    using loop_distinct[OF assms(1), of env now records "map fst es"] l by simp
  show ?thesis
  proof (cases x)
    case (Some z)
    have p: "passE env now records es = es1" using l Some by (simp add: passE_else[OF False])
    have "es \<noteq> []" using l Some by (cases es) auto
    then have rne: "records \<noteq> []" using False by simp
    obtain P where P: "map fst es1 = filter P (map fst es)"
      using loop_keys[of env now records "map fst es" es] l by auto
    have "filter P (map fst es) = filter (\<lambda>k. k \<in> fst ` set es1) (map fst es)"
    proof (rule filter_cong[OF refl])
      fix k assume k: "k \<in> set (map fst es)"
      have "k \<in> set (map fst es1) \<longleftrightarrow> P k" unfolding P using k by simp
      then show "P k = (k \<in> fst ` set es1)" by simp
    qed
    then have ks: "map fst es1 = filter (\<lambda>k. k \<in> fst ` set es1) (map fst es)" using P by simp
    have "reconcileEntriesE env' now' records (map fst es1) es1 = (x, es1)"
      using loop_again[OF assms(1) _ lk rr l, of now'] assms(1) unfolding ks[symmetric] by simp
    then show ?thesis unfolding p using Some rne by (simp add: passE_def)
  next
    case None
    let ?es2 = "fold (createEntryIfNotExistsE env now) ?valid es1"
    have p: "passE env now records es = ?es2" using l None by (simp add: passE_else[OF False])
    have d2: "distinct (map fst ?es2)" using d1 by (rule fold_create_distinct)
    have s1: "\<forall>p \<in> set es1. settled env records (snd p)"
    proof
      fix p assume pin: "p \<in> set es1"
      then have m: "map_of es1 (fst p) = Some (snd p)" using d1 by (cases p) auto
      have "fst p \<in> fst ` set es" using loop_subset[of env now records "map fst es" es] l pin by auto
      then have "fst p \<in> set (map fst es)" by simp
      from loop_all_settled[OF assms(1) _ this m] l None show "settled env records (snd p)" by simp
    qed
    have s2: "\<forall>p \<in> set ?es2. settled env records (snd p)"
      by (rule fold_create_settled[OF _ s1]) simp
    have "\<forall>k e. map_of ?es2 k = Some e \<longrightarrow> settled env' records e"
      using s2 settled_env[OF lk] by (metis map_of_SomeD snd_conv)
    then have l2: "reconcileEntriesE env' now' records (map fst ?es2) ?es2 = (None, ?es2)"
      by (rule loop_settled_noop[OF d2])
    have "\<forall>r \<in> set ?valid. createNoop env' r ?es2"
      using fold_create_noop_all[of _ ?valid env now es1] createNoop_env[OF lk cr] by blast
    then have c2: "fold (createEntryIfNotExistsE env' now') ?valid ?es2 = ?es2"
      by (rule fold_create_noop)
    show ?thesis
    proof (cases "records = []")
      case True
      then have "es = []" using False by simp
      then show ?thesis using True by (simp add: passE_def)
    next
      case rne: False
      show ?thesis unfolding p using rne l2 c2 by (simp add: passE_def)
    qed
  qed
qed

lemma recordFields_env:
  assumes "getInventoryPath env' = getInventoryPath env" and "getBMCLogPath env' = getBMCLogPath env"
    and "getEntrySeverityType env' = getEntrySeverityType env"
  shows "recordFields env' = recordFields env"
  unfolding recordFields_def[abs_def] assms by (rule refl)

lemma createEntry_guardStore [simp]:
  "guardStore (snd (createEntry env now r res sev hw lg False p st)) = guardStore st"
  by (simp add: createEntry_def Let_def)

lemma createEntryForRecord_guardStore [simp]:
  "guardStore (createEntryForRecord env now r b st) = guardStore st"
proof -
  have *: "guardStore (case createEntry env now r1 res sev hw lg False p s of
        (None, st3) \<Rightarrow> emit (Log (SkipCreateFailed q)) st3 | (Some p, st3) \<Rightarrow> st3) = guardStore s"
    for r1 res sev hw lg p s q
    using createEntry_guardStore[of env now r1 res sev hw lg p s]
    by (cases "createEntry env now r1 res sev hw lg False p s") (auto split: option.splits)
  show ?thesis
    by (simp add: createEntryForRecord_def Let_def * split: option.splits prod.splits)
qed

lemma updateEntryForRecord_guardStore [simp]:
  "guardStore (updateEntryForRecord env now r k st) = guardStore st"
  by (simp add: updateEntryForRecord_def Let_def split: option.splits prod.splits)

lemma cleanupEcoCores_guardStore [simp]:
  "guardStore (snd (cleanupEcoCores env ps (u, st))) = guardStore st"
  by (induction ps arbitrary: u st) auto

lemma cleanupPersistedEcoCores_guardStore [simp]:
  "guardStore (cleanupPersistedEcoCores env st) = guardStore st"
proof -
  obtain u st1 where c: "cleanupEcoCores env (persistedEcoCores st) (False, st) = (u, st1)"
    by (cases "cleanupEcoCores env (persistedEcoCores st) (False, st)")
  have "guardStore st1 = guardStore st"
    using cleanupEcoCores_guardStore[of env "persistedEcoCores st" False st] c by simp
  then show ?thesis using c by (simp add: cleanupPersistedEcoCores_def)
qed

lemma reconcileEntry_guardStore [simp]:
  "guardStore (snd (reconcileEntry env now records k st)) = guardStore st"
  by (simp add: reconcileEntry_def Let_def split: option.splits)

lemma reconcileEntries_guardStore [simp]:
  "guardStore (snd (reconcileEntries env now records ks st)) = guardStore st"
proof (induction ks arbitrary: st)
  case Nil show ?case by simp
next
  case (Cons k ks)
  obtain x st1 where a: "reconcileEntry env now records k st = (x, st1)"
    by (cases "reconcileEntry env now records k st")
  have "guardStore st1 = guardStore st"
    using reconcileEntry_guardStore[of env now records k st] a by simp
  then show ?case using a Cons.IH[of st1] by (cases x) simp_all
qed

lemma createEntryIfNotExists_guardStore [simp]:
  "guardStore (createEntryIfNotExists env now r st) = guardStore st"
  by (simp add: createEntryIfNotExists_def)

lemma fold_createEntryIfNotExists_guardStore [simp]:
  "guardStore (fold (createEntryIfNotExists env now) rs st) = guardStore st"
  by (induction rs arbitrary: st) auto

lemma handleHostIsolatedHardwares_guardStore:
  "guardStore (snd (handleHostIsolatedHardwares env now st)) = guardStore st"
proof (cases "timerObjs st")
  case Nil
  then show ?thesis by (simp add: handleHostIsolatedHardwares_def)
next
  case (Cons t ts)
  let ?st1 = "emit GuardGetAll (st\<lparr>timerObjs := ts\<rparr>)"
  let ?recs = "guardGetAll env ?st1"
  obtain x b where
    eq: "reconcileEntries env now ?recs (map fst (isolatedHardwares ?st1)) ?st1 = (x, b)"
    by (cases "reconcileEntries env now ?recs (map fst (isolatedHardwares ?st1)) ?st1")
  have "guardStore b = guardStore st"
    using reconcileEntries_guardStore[of env now ?recs "map fst (isolatedHardwares ?st1)" ?st1]
    unfolding eq by simp
  then show ?thesis using Cons eq
    by (auto simp: handleHostIsolatedHardwares_def Let_def resolveAllEntries_def split: option.splits)
qed

lemma updateEntryForRecord_elapsed:
  assumes "map_of (isolatedHardwares st) k = Some e"
  shows "\<exists>e'. map_of (isolatedHardwares (updateEntryForRecord env now record k st)) k = Some e'
           \<and> (elapsed e' \<noteq> elapsed e \<longrightarrow> severity e' \<noteq> severity e \<or> associations e' \<noteq> associations e)"
proof (cases "recordFields env record")
  case None
  then show ?thesis using assms by (simp add: updateEntryForRecord_E updateEntryForRecordE_def)
next
  case (Some sa)
  obtain sev assoc where sa: "sa = (sev, assoc)" by (cases sa)
  have "map_of (isolatedHardwares (updateEntryForRecord env now record k st)) k = Some (refresh sev assoc now e)"
    using assms Some sa by (simp add: updateEntryForRecord_E updateEntryForRecordE_def map_of_map_modify)
  moreover have "elapsed (refresh sev assoc now e) \<noteq> elapsed e \<longrightarrow>
      severity (refresh sev assoc now e) \<noteq> severity e \<or> associations (refresh sev assoc now e) \<noteq> associations e"
    by (auto simp: refresh_def setElapsedIfUpdated_def setSeverityAndAssociations_def updated_def Let_def)
  ultimately show ?thesis by blast
qed

text \<open>The pass keeps the keys of the map distinct.\<close>

lemma handleHostIsolatedHardwares_distinct:
  assumes "distinct (map fst (isolatedHardwares st))"
  shows "distinct (map fst (isolatedHardwares (snd (handleHostIsolatedHardwares env now st))))"
proof (cases "timerObjs st = []")
  case True
  then show ?thesis using assms by (simp add: handleHostIsolatedHardwares_def)
next
  case False
  show ?thesis unfolding handleHostIsolatedHardwares_E[OF False]
    using assms by (rule passE_distinct)
qed

lemma failed_create_result: "fst (createWithEntityPath (sample_env\<lparr>getPELIdFromBMCLogId := \<lambda>n. Inl SdBusError\<rparr>) 5 [2]
            Warning ''/log/3'' one_entry_state) = Inl InvalidArgument"
  by (simp add: createWithEntityPath_def sample_env_def one_entry_state_def isHwIsolationAllowed_def
      getEID_def stoi_def last_component_def isspace_def isdigit_def digits_value_def digit_value_def
      updateEcoCoresList_def serialize_def emit_def Let_def)

lemma after_failed_create_eq: "after_failed_create =
    one_entry_state\<lparr>persistedEcoCores := [[2]], ecoCoresFile := Some [[2]],
       events := [CatalogInventoryPath [2] False, ManagerSerialize, Log (GetEIDFailed ''/log/3''),
                  Log (InvalidBmcErrorLog ''/log/3'')]\<rparr>"
  by (simp add: after_failed_create_def createWithEntityPath_def sample_env_def one_entry_state_def isHwIsolationAllowed_def
      getEID_def stoi_def last_component_def isspace_def isdigit_def digits_value_def digit_value_def
      updateEcoCoresList_def serialize_def emit_def Let_def)

text \<open>
  A construction that fails for one pass and not for the next: the first pass leaves the
  valid record without an entry, the second creates it.
\<close>

lemma second_pass_after_failed_construction:
  "isolatedHardwares (snd (handleHostIsolatedHardwares (sample_env\<lparr>entryCtorRaises := \<lambda>k. True\<rparr>) 10
      (one_entry_state\<lparr>isolatedHardwares := [],
         guardStore := [\<lparr>recordId = 1, targetId = [1], elogId = 0, errType = 0xE3\<rparr>]\<rparr>))) = []
   \<and> map fst (isolatedHardwares (snd (handleHostIsolatedHardwares sample_env 20
      (snd (handleHostIsolatedHardwares (sample_env\<lparr>entryCtorRaises := \<lambda>k. True\<rparr>) 10
      (one_entry_state\<lparr>isolatedHardwares := [],
         guardStore := [\<lparr>recordId = 1, targetId = [1], elogId = 0, errType = 0xE3\<rparr>]\<rparr>)))))) = [1]"
  by (simp add: handleHostIsolatedHardwares_def one_entry_state_def sample_env_def guardGetAll_def
      isValidRecord_def createEntryIfNotExists_def createEntryForRecord_def createEntry_def
      updateEcoCoresList_def cleanupPersistedEcoCores_def serialize_def map_insert_def
      emit_def Let_def)

text \<open>
  C7, as stated: a second pass on the unchanged snapshot mutates nothing. After the failed
  create call above the guard store is empty and the map is not: the first pass resets the
  map and returns before the eco cores are cleaned, so the path that the call left in the
  set, and the file of the set, are still there; the second pass, on the same empty
  snapshot, empties the set and removes the file.
\<close>

theorem second_pass_clears_eco_cores:
  "fst (createWithEntityPath (sample_env\<lparr>getPELIdFromBMCLogId := \<lambda>n. Inl SdBusError\<rparr>) 5 [2]
            Warning ''/log/3'' one_entry_state) = Inl InvalidArgument
   \<and> guard_getAll sample_env (guardStore after_failed_create) = []
   \<and> persistedEcoCores (snd (handleHostIsolatedHardwares sample_env 10 after_failed_create)) = [[2]]
   \<and> ecoCoresFile (snd (handleHostIsolatedHardwares sample_env 10 after_failed_create)) = Some [[2]]
   \<and> guard_getAll sample_env
        (guardStore (snd (handleHostIsolatedHardwares sample_env 10 after_failed_create))) = []
   \<and> persistedEcoCores (snd (handleHostIsolatedHardwares sample_env 20
        (snd (handleHostIsolatedHardwares sample_env 10 after_failed_create)))) = []
   \<and> ecoCoresFile (snd (handleHostIsolatedHardwares sample_env 20
        (snd (handleHostIsolatedHardwares sample_env 10 after_failed_create)))) = None"
proof -
  have b: "guard_getAll sample_env (guardStore after_failed_create) = []
   \<and> persistedEcoCores (snd (handleHostIsolatedHardwares sample_env 10 after_failed_create)) = [[2]]
   \<and> ecoCoresFile (snd (handleHostIsolatedHardwares sample_env 10 after_failed_create)) = Some [[2]]
   \<and> guard_getAll sample_env
        (guardStore (snd (handleHostIsolatedHardwares sample_env 10 after_failed_create))) = []
   \<and> persistedEcoCores (snd (handleHostIsolatedHardwares sample_env 20
        (snd (handleHostIsolatedHardwares sample_env 10 after_failed_create)))) = []
   \<and> ecoCoresFile (snd (handleHostIsolatedHardwares sample_env 20
        (snd (handleHostIsolatedHardwares sample_env 10 after_failed_create)))) = None"
    unfolding after_failed_create_eq
    by (simp add: handleHostIsolatedHardwares_def one_entry_state_def sample_env_def guardGetAll_def
      resolveAllEntries_def resolveEntry_def eraseEntry_def updateEcoCoresList_def serialize_def
      emit_def map_erase_def cleanupPersistedEcoCores_def Let_def)
  show ?thesis using failed_create_result b by (rule conjI)
qed

text \<open>
  C7, amended: a second pass mutates no entry. The map being a \<open>std::map\<close> (its keys
  are distinct), let a pass run from \<open>st\<close>, and let \<open>st'\<close> have the entries this
  pass left. Let the second pass find the guard store listing the same records and the
  catalog, the error-log service and the severity table giving the same answers, and let
  the construction or the resolution of an entry fail for the second pass wherever it fails
  for the first (\<open>env'\<close> against \<open>env\<close>; the two may be the same). Then a pass
  from \<open>st'\<close>, at whatever time, leaves the map of the entries as it is: the same keys,
  and each entry with its severity, associations, resolved flag and time stamp. The first
  pass itself leaves the guard store alone, so the state it ends in is such a \<open>st'\<close>.
  And \<open>updateEntryForRecord\<close> changes the time stamp of an entry only when it changes its
  severity or its associations.
\<close>

theorem reconcile_idempotent:
  fixes env env' :: "'g env"
  assumes "distinct (map fst (isolatedHardwares st))" and "timerObjs st \<noteq> []"
    and "isolatedHardwares st' = isolatedHardwares (snd (handleHostIsolatedHardwares env now st))"
    and "guard_getAll env' (guardStore st') = guard_getAll env (guardStore st)"
    and "getInventoryPath env' = getInventoryPath env"
    and "getBMCLogPath env' = getBMCLogPath env"
    and "getEntrySeverityType env' = getEntrySeverityType env"
    and "\<forall>k. resolveRaises env k \<longrightarrow> resolveRaises env' k"
    and "\<forall>k. entryCtorRaises env k \<longrightarrow> entryCtorRaises env' k"
  shows "isolatedHardwares (snd (handleHostIsolatedHardwares env' now' st')) = isolatedHardwares st'
    \<and> guardStore (snd (handleHostIsolatedHardwares env now st)) = guardStore st
    \<and> (\<forall>k e r. map_of (isolatedHardwares st) k = Some e \<longrightarrow>
          (\<exists>e'. map_of (isolatedHardwares (updateEntryForRecord env now r k st)) k = Some e'
             \<and> (elapsed e' \<noteq> elapsed e \<longrightarrow>
                  severity e' \<noteq> severity e \<or> associations e' \<noteq> associations e)))"
proof (intro conjI allI impI)
  show "isolatedHardwares (snd (handleHostIsolatedHardwares env' now' st')) = isolatedHardwares st'"
  proof (cases "timerObjs st' = []")
    case True
    then show ?thesis by (simp add: handleHostIsolatedHardwares_def)
  next
    case False
    have a: "isolatedHardwares st' = passE env now (guard_getAll env (guardStore st)) (isolatedHardwares st)"
      using assms(3) handleHostIsolatedHardwares_E[OF assms(2)] by simp
    have lk: "recordFields env' = recordFields env"
      by (rule recordFields_env[OF assms(5,6,7)])
    show ?thesis
      unfolding handleHostIsolatedHardwares_E[OF False] assms(4)
      unfolding a by (rule passE_again[OF assms(1) lk assms(8,9)])
  qed
  show "guardStore (snd (handleHostIsolatedHardwares env now st)) = guardStore st"
    by (rule handleHostIsolatedHardwares_guardStore)
  show "\<exists>e'. map_of (isolatedHardwares (updateEntryForRecord env now r k st)) k = Some e'
             \<and> (elapsed e' \<noteq> elapsed e \<longrightarrow>
                  severity e' \<noteq> severity e \<or> associations e' \<noteq> associations e)"
    if "map_of (isolatedHardwares st) k = Some e" for k e r
    using that by (rule updateEntryForRecord_elapsed)
qed

theorem reconcile_idempotent_witness:
  "isolatedHardwares (snd (handleHostIsolatedHardwares sample_env 10 two_record_state)) =
     [(1, \<lparr>entryRecId = 1, severity = Critical, resolved = False,
           associations = [(''isolated_hw'', ''isolated_hw_entry'', ''/inv/core0'')],
           entityPath = [1], elapsed = 10\<rparr>)]
   \<and> isolatedHardwares (snd (handleHostIsolatedHardwares
        (sample_env\<lparr>entryCtorRaises := \<lambda>k. True, resolveRaises := \<lambda>k. True\<rparr>) 20
        (snd (handleHostIsolatedHardwares sample_env 10 two_record_state)))) =
     [(1, \<lparr>entryRecId = 1, severity = Critical, resolved = False,
           associations = [(''isolated_hw'', ''isolated_hw_entry'', ''/inv/core0'')],
           entityPath = [1], elapsed = 10\<rparr>)]"
proof -
  let ?st1 = "snd (handleHostIsolatedHardwares sample_env 10 two_record_state)"
  let ?env' = "sample_env\<lparr>entryCtorRaises := \<lambda>k. True, resolveRaises := \<lambda>k. True\<rparr>"
  have d: "distinct (map fst (isolatedHardwares two_record_state))"
    by (simp add: two_record_state_def)
  have t: "timerObjs two_record_state \<noteq> []" by (simp add: two_record_state_def)
  have g: "guard_getAll ?env' (guardStore ?st1) =
           guard_getAll sample_env (guardStore two_record_state)"
    by (simp add: handleHostIsolatedHardwares_guardStore)
  have l: "getInventoryPath ?env' = getInventoryPath sample_env"
    "getBMCLogPath ?env' = getBMCLogPath sample_env"
    "getEntrySeverityType ?env' = getEntrySeverityType sample_env"
    by simp_all
  have r: "\<forall>k. resolveRaises sample_env k \<longrightarrow> resolveRaises ?env' k"
    "\<forall>k. entryCtorRaises sample_env k \<longrightarrow> entryCtorRaises ?env' k"
    by simp_all
  have p: "isolatedHardwares ?st1 =
     [(1, \<lparr>entryRecId = 1, severity = Critical, resolved = False,
           associations = [(''isolated_hw'', ''isolated_hw_entry'', ''/inv/core0'')],
           entityPath = [1], elapsed = 10\<rparr>)]"
    by (simp add: handleHostIsolatedHardwares_E two_record_state_def passE_def sample_env_def
      reconcileEntryE_def resolveEntryE_def updateEntryForRecordE_def recordFields_def
      isValidRecord_def map_erase_def map_modify_def refresh_def setElapsedIfUpdated_def
      setSeverityAndAssociations_def updated_def associationDeftoHw_def
      createEntryIfNotExistsE_def Let_def)
  show ?thesis
    using reconcile_idempotent[OF d t refl g l r, THEN conjunct1, of 20] p by simp
qed

section \<open>More than one valid record for the hardware of an entry\<close>

lemma emit_keeps: "x \<in> set (events st) \<Longrightarrow> x \<in> set (events (emit ev st))"
  by simp





















section \<open>Entries for the records that have none\<close>

lemma step_keeps_path:
  assumes "map_of es k = Some e"
    and "\<exists>r \<in> set records. isValidRecord (recordId r) \<and> targetId r = entityPath e"
  shows "\<exists>e1. map_of (snd (reconcileEntryE env now records j es)) k = Some e1
           \<and> entityPath e1 = entityPath e"
proof (cases "j = k")
  case False
  then show ?thesis using step_other[of k j env now records es] assms(1) by simp
next
  case True
  obtain r where "r \<in> set records" "isValidRecord (recordId r)" "targetId r = entityPath e"
    using assms(2) by blast
  then have "r \<in> set (validEntryRecords records e)" by (simp add: validEntryRecords_def)
  then have ne: "validEntryRecords records e \<noteq> []" by auto
  show ?thesis
  proof (cases "length (validEntryRecords records e) = 1")
    case l: True
    show ?thesis
    proof (cases "recordFields env (hd (validEntryRecords records e))")
      case None
      then show ?thesis using True ne l assms(1)
        by (simp add: reconcileEntryE_char updateEntryForRecordE_def)
    next
      case (Some sa)
      obtain sev assoc where sa: "sa = (sev, assoc)" by (cases sa)
      show ?thesis using True ne l assms(1) Some sa
        by (simp add: reconcileEntryE_char updateEntryForRecordE_def map_of_map_modify)
    qed
  next
    case False
    then show ?thesis using True ne assms(1) by (simp add: reconcileEntryE_char)
  qed
qed

lemma loop_keeps_path:
  "map_of es k = Some e \<Longrightarrow>
   \<exists>r \<in> set records. isValidRecord (recordId r) \<and> targetId r = entityPath e \<Longrightarrow>
   \<exists>e1. map_of (snd (reconcileEntriesE env now records ks es)) k = Some e1
           \<and> entityPath e1 = entityPath e"
proof (induction ks arbitrary: es e)
  case Nil
  then show ?case by simp
next
  case (Cons j ks)
  let ?es = "snd (reconcileEntryE env now records j es)"
  obtain e1 where e1: "map_of ?es k = Some e1" "entityPath e1 = entityPath e"
    using step_keeps_path[OF Cons.prems, of env now j] by blast
  have v: "\<exists>r \<in> set records. isValidRecord (recordId r) \<and> targetId r = entityPath e1"
    using Cons.prems(2) e1(2) by simp
  obtain e2 where e2: "map_of (snd (reconcileEntriesE env now records ks ?es)) k = Some e2"
    "entityPath e2 = entityPath e1"
    using Cons.IH[OF e1(1) v] by blast
  show ?case using e1 e2
    by (simp only: loop_step split: if_splits) auto
qed

lemma create_new:
  assumes "q \<in> set (createEntryIfNotExistsE env now r es)" and "q \<notin> set es"
  shows "recordId r = fst q \<and> targetId r = entityPath (snd q)
     \<and> (\<forall>p \<in> set es. entityPath (snd p) \<noteq> entityPath (snd q))"
  using assms
  by (auto simp: createEntryIfNotExistsE_def createEntryForRecordE_def set_map_insert
      entryOfRecord_def list_all_iff split: if_splits option.splits)

lemma fold_create_new:
  "q \<in> set (fold (createEntryIfNotExistsE env now) rs es) \<Longrightarrow> q \<notin> set es \<Longrightarrow>
   (\<exists>r \<in> set rs. recordId r = fst q \<and> targetId r = entityPath (snd q))
   \<and> (\<forall>p \<in> set es. entityPath (snd p) \<noteq> entityPath (snd q))"
proof (induction rs arbitrary: es)
  case Nil
  then show ?case by simp
next
  case (Cons r rs)
  let ?es = "createEntryIfNotExistsE env now r es"
  show ?case
  proof (cases "q \<in> set ?es")
    case True
    from create_new[OF True Cons.prems(2)] show ?thesis by simp
  next
    case False
    have "q \<in> set (fold (createEntryIfNotExistsE env now) rs ?es)" using Cons.prems(1) by simp
    from Cons.IH[OF this False]
    have a: "\<exists>r \<in> set rs. recordId r = fst q \<and> targetId r = entityPath (snd q)"
      and b: "\<forall>p \<in> set ?es. entityPath (snd p) \<noteq> entityPath (snd q)" by simp_all
    have "\<forall>p \<in> set es. entityPath (snd p) \<noteq> entityPath (snd q)"
      using b create_superset[of es env now r] by blast
    then show ?thesis using a by auto
  qed
qed

lemma create_one_of_path:
  assumes "\<forall>q \<in> set es. \<forall>q' \<in> set es. entityPath (snd q) = p \<and> entityPath (snd q') = p \<longrightarrow> q = q'"
  shows "\<forall>q \<in> set (createEntryIfNotExistsE env now r es).
           \<forall>q' \<in> set (createEntryIfNotExistsE env now r es).
             entityPath (snd q) = p \<and> entityPath (snd q') = p \<longrightarrow> q = q'"
proof (cases "createEntryIfNotExistsE env now r es = es")
  case True
  then show ?thesis using assms by simp
next
  case False
  have n: "\<forall>q \<in> set es. entityPath (snd q) \<noteq> targetId r"
  proof (rule ccontr)
    assume "\<not> ?thesis"
    then obtain q0 where "q0 \<in> set es" "targetId r = entityPath (snd q0)" by force
    then have "\<not> list_all (\<lambda>p. targetId r \<noteq> entityPath (snd p)) es"
      unfolding list_all_iff by blast
    then have "createEntryIfNotExistsE env now r es = es"
      by (simp add: createEntryIfNotExistsE_def)
    with False show False by simp
  qed
  then have la: "list_all (\<lambda>p. targetId r \<noteq> entityPath (snd p)) es"
    by (auto simp: list_all_iff)
  have "recordFields env r \<noteq> None"
  proof
    assume "recordFields env r = None"
    then have "createEntryIfNotExistsE env now r es = es"
      by (simp add: createEntryIfNotExistsE_def createEntryForRecordE_def)
    with False show False by simp
  qed
  then obtain sev assoc where f: "recordFields env r = Some (sev, assoc)" by auto
  have nc: "\<not> entryCtorRaises env (recordId r)"
  proof
    assume "entryCtorRaises env (recordId r)"
    then have "createEntryIfNotExistsE env now r es = es"
      using f by (simp add: createEntryIfNotExistsE_def createEntryForRecordE_def)
    with False show False by simp
  qed
  have eq: "createEntryIfNotExistsE env now r es =
               map_insert (recordId r) (entryOfRecord now r sev assoc) es"
    using la f nc by (simp add: createEntryIfNotExistsE_def createEntryForRecordE_def)
  have s: "set (createEntryIfNotExistsE env now r es) \<subseteq>
             insert (recordId r, entryOfRecord now r sev assoc) (set es)"
    unfolding eq by (auto simp: set_map_insert split: if_splits)
  have t: "entityPath (entryOfRecord now r sev assoc) = targetId r" by (simp add: entryOfRecord_def)
  show ?thesis
  proof (intro ballI impI)
    fix q q'
    assume q: "q \<in> set (createEntryIfNotExistsE env now r es)"
      and q': "q' \<in> set (createEntryIfNotExistsE env now r es)"
      and pp: "entityPath (snd q) = p \<and> entityPath (snd q') = p"
    show "q = q'"
    proof (cases "p = targetId r")
      case True
      then have "q \<notin> set es" "q' \<notin> set es" using n pp by auto
      then show ?thesis using q q' s by auto
    next
      case False
      then have "q \<in> set es" "q' \<in> set es" using q q' s pp t by auto
      then show ?thesis using assms pp by blast
    qed
  qed
qed

lemma fold_create_one_of_path:
  "\<forall>q \<in> set es. \<forall>q' \<in> set es. entityPath (snd q) = p \<and> entityPath (snd q') = p \<longrightarrow> q = q' \<Longrightarrow>
   \<forall>q \<in> set (fold (createEntryIfNotExistsE env now) rs es).
     \<forall>q' \<in> set (fold (createEntryIfNotExistsE env now) rs es).
       entityPath (snd q) = p \<and> entityPath (snd q') = p \<longrightarrow> q = q'"
proof (induction rs arbitrary: es)
  case Nil
  then show ?case by simp
next
  case (Cons r rs)
  from Cons.IH[OF create_one_of_path[OF Cons.prems, of env now r]] show ?case by simp
qed

lemma step_shape:
  "snd (reconcileEntryE env now records j es) = es
   \<or> snd (reconcileEntryE env now records j es) = map_erase j es
   \<or> (\<exists>sev assoc. snd (reconcileEntryE env now records j es) = map_modify j (refresh sev assoc now) es)"
  by (auto simp: reconcileEntryE_def resolveEntryE_def updateEntryForRecordE_def Let_def
      split: option.splits)

lemma step_same_path:
  assumes "q \<in> set (snd (reconcileEntryE env now records j es))"
  shows "\<exists>p \<in> set es. fst p = fst q \<and> entityPath (snd p) = entityPath (snd q)"
proof -
  from step_shape[of env now records j es]
  consider "snd (reconcileEntryE env now records j es) = es"
    | "snd (reconcileEntryE env now records j es) = map_erase j es"
    | sev assoc where "snd (reconcileEntryE env now records j es) = map_modify j (refresh sev assoc now) es"
    by blast
  then show ?thesis
  proof cases
    case 1
    then show ?thesis using assms by auto
  next
    case 2
    then have "q \<in> set es" using assms by (simp add: map_erase_def)
    then show ?thesis by auto
  next
    case 3
    then have "q \<in> (\<lambda>p. if fst p = j then (fst p, refresh sev assoc now (snd p)) else p) ` set es"
      using assms by (simp add: map_modify_def)
    then obtain p where p: "p \<in> set es" "q = (if fst p = j then (fst p, refresh sev assoc now (snd p)) else p)"
      by (rule imageE)
    then have "fst p = fst q \<and> entityPath (snd p) = entityPath (snd q)" by (cases "fst p = j") simp_all
    then show ?thesis using p(1) by blast
  qed
qed

lemma loop_same_path:
  "q \<in> set (snd (reconcileEntriesE env now records ks es)) \<Longrightarrow>
   \<exists>p \<in> set es. fst p = fst q \<and> entityPath (snd p) = entityPath (snd q)"
proof (induction ks arbitrary: es q)
  case Nil
  then show ?case by auto
next
  case (Cons j ks)
  obtain y es' where s: "reconcileEntryE env now records j es = (y, es')"
    by (cases "reconcileEntryE env now records j es")
  have "\<exists>p \<in> set es'. fst p = fst q \<and> entityPath (snd p) = entityPath (snd q)"
  proof (cases y)
    case None
    then have "q \<in> set (snd (reconcileEntriesE env now records ks es'))"
      using Cons.prems s by simp
    then show ?thesis by (rule Cons.IH)
  next
    case (Some z)
    then have "q \<in> set es'" using Cons.prems s by simp
    then show ?thesis by auto
  qed
  then obtain p1 where p1: "p1 \<in> set es'" "fst p1 = fst q" "entityPath (snd p1) = entityPath (snd q)"
    by blast
  have "p1 \<in> set (snd (reconcileEntryE env now records j es))" using p1(1) s by simp
  then obtain p where "p \<in> set es" "fst p = fst p1" "entityPath (snd p) = entityPath (snd p1)"
    using step_same_path by blast
  then show ?case using p1 by auto
qed

lemma passE_new:
  assumes d: "distinct (map fst es)"
    and q: "q \<in> set (passE env now records es)"
    and k: "\<forall>p \<in> set es. fst p = fst q \<longrightarrow> entityPath (snd p) \<noteq> entityPath (snd q)"
  shows "(\<exists>r \<in> set records. isValidRecord (recordId r) \<and> recordId r = fst q
            \<and> targetId r = entityPath (snd q))
     \<and> (\<forall>p \<in> set es. entityPath (snd p) \<noteq> entityPath (snd q))
     \<and> (\<forall>q' \<in> set (passE env now records es). entityPath (snd q') = entityPath (snd q) \<longrightarrow> q' = q)"
proof -
  let ?valid = "filter (\<lambda>record. isValidRecord (recordId record)) records"
  obtain x es1 where l: "reconcileEntriesE env now records (map fst es) es = (x, es1)"
    by (cases "reconcileEntriesE env now records (map fst es) es")
  have nq: "q \<notin> set es1"
  proof
    assume "q \<in> set es1"
    then have "q \<in> set (snd (reconcileEntriesE env now records (map fst es) es))" using l by simp
    from loop_same_path[OF this] k show False by blast
  qed
  have ne: "\<not> (records = [] \<and> es \<noteq> [])"
  proof
    assume "records = [] \<and> es \<noteq> []"
    then have "passE env now records es = []" by (simp add: passE_def)
    with q show False by simp
  qed
  have xn: "x = None"
  proof (cases x)
    case (Some z)
    then have "passE env now records es = es1" using l by (simp add: passE_else[OF ne])
    with q nq show ?thesis by simp
  qed simp
  let ?es2 = "fold (createEntryIfNotExistsE env now) ?valid es1"
  have p: "passE env now records es = ?es2" using l xn by (simp add: passE_else[OF ne])
  have q2: "q \<in> set ?es2" using q p by simp
  from fold_create_new[OF q2 nq]
  obtain r where r: "r \<in> set ?valid" "recordId r = fst q" "targetId r = entityPath (snd q)"
    and n1: "\<forall>p \<in> set es1. entityPath (snd p) \<noteq> entityPath (snd q)" by auto
  have rv: "r \<in> set records" "isValidRecord (recordId r)" using r(1) by simp_all
  then have a: "\<exists>r \<in> set records. isValidRecord (recordId r) \<and> recordId r = fst q
            \<and> targetId r = entityPath (snd q)"
    using r(2,3) by blast
  have b: "\<forall>p \<in> set es. entityPath (snd p) \<noteq> entityPath (snd q)"
  proof
    fix p0 assume p0: "p0 \<in> set es"
    show "entityPath (snd p0) \<noteq> entityPath (snd q)"
    proof
      assume same: "entityPath (snd p0) = entityPath (snd q)"
      have m: "map_of es (fst p0) = Some (snd p0)" using d p0 by (cases p0) auto
      have "targetId r = entityPath (snd p0)" using r(3) same by simp
      then have v: "\<exists>r \<in> set records. isValidRecord (recordId r) \<and> targetId r = entityPath (snd p0)"
        using rv by blast
      obtain e1 where e1: "map_of es1 (fst p0) = Some e1" "entityPath e1 = entityPath (snd p0)"
        using loop_keeps_path[OF m v, of env now "map fst es"] l by auto
      have "(fst p0, e1) \<in> set es1" using e1(1) by (rule map_of_SomeD)
      then show False using n1 e1(2) same by force
    qed
  qed
  have "\<forall>q1 \<in> set es1. \<forall>q2 \<in> set es1.
          entityPath (snd q1) = entityPath (snd q) \<and> entityPath (snd q2) = entityPath (snd q) \<longrightarrow> q1 = q2"
    using n1 by blast
  from fold_create_one_of_path[OF this, of env now ?valid]
  have c: "\<forall>q' \<in> set (passE env now records es). entityPath (snd q') = entityPath (snd q) \<longrightarrow> q' = q"
    unfolding p using q2 by blast
  show ?thesis using a b c by blast
qed

lemma new_hardware_pass:
  "isolatedHardwares (snd (handleHostIsolatedHardwares sample_env 10 new_hardware_state)) =
     [(1, \<lparr>entryRecId = 1, severity = Critical, resolved = False,
           associations = [(''isolated_hw'', ''isolated_hw_entry'', ''/inv/core0'')],
           entityPath = [1], elapsed = 10\<rparr>),
      (3, \<lparr>entryRecId = 3, severity = Warning, resolved = False,
           associations = [(''isolated_hw'', ''isolated_hw_entry'', ''/inv/core1'')],
           entityPath = [2], elapsed = 10\<rparr>)]"
  by (simp add: handleHostIsolatedHardwares_E new_hardware_state_def passE_def sample_env_def
      reconcileEntryE_def resolveEntryE_def updateEntryForRecordE_def recordFields_def
      isValidRecord_def map_erase_def map_modify_def map_insert_def refresh_def setElapsedIfUpdated_def
      setSeverityAndAssociations_def updated_def associationDeftoHw_def entryOfRecord_def
      createEntryIfNotExistsE_def createEntryForRecordE_def word_le_nat_alt Let_def)

text \<open>
  C10. The keys of the map being distinct, let a pass run. The pass never changes the
  entity path of an entry, so an entry of the map after the pass is one that was there
  before when the map had an entry of this entity path under this key; any other is a new
  one. A new entry is the entry of a valid record of the guard store, under the id of that
  record and with its entity path; no entry that was in the map before the pass has this
  entity path; and no other entry that is in the map after the pass has it. So, when an
  entry of the map and a record have the same entity path, whatever the key and the record
  id of the entry are, every entry with this path after the pass was in the map before: the
  record gets no entry. In the pass this is \<open>createEntryIfNotExists\<close>, which leaves the
  state alone when some entry has the entity path of the record and is
  \<open>createEntryForRecord\<close> when none has.
\<close>

theorem entry_only_for_new_path:
  assumes "distinct (map fst (isolatedHardwares st))" and "timerObjs st \<noteq> []"
  shows "(\<forall>q \<in> set (isolatedHardwares (snd (handleHostIsolatedHardwares env now st))).
            (\<forall>p \<in> set (isolatedHardwares st).
                fst p = fst q \<longrightarrow> entityPath (snd p) \<noteq> entityPath (snd q)) \<longrightarrow>
              (\<exists>r \<in> set (guard_getAll env (guardStore st)).
                  isValidRecord (recordId r) \<and> recordId r = fst q \<and> targetId r = entityPath (snd q))
              \<and> (\<forall>p \<in> set (isolatedHardwares st). entityPath (snd p) \<noteq> entityPath (snd q))
              \<and> (\<forall>q' \<in> set (isolatedHardwares (snd (handleHostIsolatedHardwares env now st))).
                    entityPath (snd q') = entityPath (snd q) \<longrightarrow> q' = q))
     \<and> (\<forall>p \<in> set (isolatedHardwares st). \<forall>r \<in> set (guard_getAll env (guardStore st)).
            targetId r = entityPath (snd p) \<longrightarrow>
              (\<forall>q \<in> set (isolatedHardwares (snd (handleHostIsolatedHardwares env now st))).
                  entityPath (snd q) = targetId r \<longrightarrow>
                    (\<exists>p' \<in> set (isolatedHardwares st).
                        fst p' = fst q \<and> entityPath (snd p') = entityPath (snd q))))
     \<and> (\<forall>validRecord.
           ((\<exists>p \<in> set (isolatedHardwares st). entityPath (snd p) = targetId validRecord) \<longrightarrow>
              createEntryIfNotExists env now validRecord st = st)
           \<and> ((\<forall>p \<in> set (isolatedHardwares st). entityPath (snd p) \<noteq> targetId validRecord) \<longrightarrow>
              createEntryIfNotExists env now validRecord st =
                createEntryForRecord env now validRecord False st))"
proof (intro conjI)
  let ?es = "isolatedHardwares st" and ?records = "guard_getAll env (guardStore st)"
  have f: "isolatedHardwares (snd (handleHostIsolatedHardwares env now st)) = passE env now ?records ?es"
    by (rule handleHostIsolatedHardwares_E[OF assms(2)])
  show n: "\<forall>q \<in> set (isolatedHardwares (snd (handleHostIsolatedHardwares env now st))).
            (\<forall>p \<in> set ?es. fst p = fst q \<longrightarrow> entityPath (snd p) \<noteq> entityPath (snd q)) \<longrightarrow>
              (\<exists>r \<in> set ?records.
                  isValidRecord (recordId r) \<and> recordId r = fst q \<and> targetId r = entityPath (snd q))
              \<and> (\<forall>p \<in> set ?es. entityPath (snd p) \<noteq> entityPath (snd q))
              \<and> (\<forall>q' \<in> set (isolatedHardwares (snd (handleHostIsolatedHardwares env now st))).
                    entityPath (snd q') = entityPath (snd q) \<longrightarrow> q' = q)"
    unfolding f using passE_new[OF assms(1), of _ env now ?records] by blast
  show "\<forall>p \<in> set ?es. \<forall>r \<in> set ?records.
            targetId r = entityPath (snd p) \<longrightarrow>
              (\<forall>q \<in> set (isolatedHardwares (snd (handleHostIsolatedHardwares env now st))).
                  entityPath (snd q) = targetId r \<longrightarrow>
                    (\<exists>p' \<in> set ?es. fst p' = fst q \<and> entityPath (snd p') = entityPath (snd q)))"
  proof (intro ballI impI)
    fix p r q
    assume p: "p \<in> set ?es" and t: "targetId r = entityPath (snd p)"
      and q: "q \<in> set (isolatedHardwares (snd (handleHostIsolatedHardwares env now st)))"
      and e: "entityPath (snd q) = targetId r"
    show "\<exists>p' \<in> set ?es. fst p' = fst q \<and> entityPath (snd p') = entityPath (snd q)"
    proof (rule ccontr)
      assume "\<not> ?thesis"
      then have "\<forall>p \<in> set ?es. fst p = fst q \<longrightarrow> entityPath (snd p) \<noteq> entityPath (snd q)"
        by blast
      with n q have "\<forall>p \<in> set ?es. entityPath (snd p) \<noteq> entityPath (snd q)" by blast
      then have "entityPath (snd p) \<noteq> entityPath (snd q)" using p by blast
      then show False using t e by simp
    qed
  qed
  show "\<forall>validRecord.
           ((\<exists>p \<in> set ?es. entityPath (snd p) = targetId validRecord) \<longrightarrow>
              createEntryIfNotExists env now validRecord st = st)
           \<and> ((\<forall>p \<in> set ?es. entityPath (snd p) \<noteq> targetId validRecord) \<longrightarrow>
              createEntryIfNotExists env now validRecord st =
                createEntryForRecord env now validRecord False st)"
    by (auto simp: createEntryIfNotExists_def list_all_iff)
qed

theorem entry_only_for_new_path_witness:
  "map fst (isolatedHardwares (snd (handleHostIsolatedHardwares sample_env 10 new_hardware_state))) = [1, 3]
   \<and> (\<exists>r \<in> set (guard_getAll sample_env (guardStore new_hardware_state)).
          isValidRecord (recordId r) \<and> recordId r = 3 \<and> targetId r = [2])
   \<and> [2] \<notin> set (map (\<lambda>p. entityPath (snd p)) (isolatedHardwares new_hardware_state))"
proof -
  let ?e3 = "\<lparr>entryRecId = 3, severity = Warning, resolved = False,
           associations = [(''isolated_hw'', ''isolated_hw_entry'', ''/inv/core1'')],
           entityPath = [2], elapsed = 10\<rparr>"
  have d: "distinct (map fst (isolatedHardwares new_hardware_state))"
    by (simp add: new_hardware_state_def)
  have t: "timerObjs new_hardware_state \<noteq> []" by (simp add: new_hardware_state_def)
  have q: "(3, ?e3) \<in> set (isolatedHardwares (snd (handleHostIsolatedHardwares sample_env 10 new_hardware_state)))"
    by (simp add: new_hardware_pass)
  have k: "\<forall>p \<in> set (isolatedHardwares new_hardware_state).
             fst p = fst (3 :: 32 word, ?e3) \<longrightarrow> entityPath (snd p) \<noteq> entityPath (snd (3 :: 32 word, ?e3))"
    by (simp add: new_hardware_state_def)
  from entry_only_for_new_path[OF d t, of sample_env 10, THEN conjunct1, THEN bspec, OF q, THEN mp, OF k]
  show ?thesis using new_hardware_pass by auto
qed

section \<open>The id of a resolved record is never a key\<close>












lemma deletePersistedEntryFileIfNotExist_entries [simp]:
  "isolatedHardwares (snd (deletePersistedEntryFileIfNotExist files st)) = isolatedHardwares st"
  by (induction files arbitrary: st) (auto split: sum.splits)

lemma cleanupPersistedFiles_entries [simp]:
  "isolatedHardwares (snd (cleanupPersistedFiles env st)) = isolatedHardwares st"
proof -
  obtain x st1 where d: "deletePersistedEntryFileIfNotExist (entryFiles st) st = (x, st1)"
    by (cases "deletePersistedEntryFileIfNotExist (entryFiles st) st")
  have "isolatedHardwares st1 = isolatedHardwares st"
    using deletePersistedEntryFileIfNotExist_entries[of "entryFiles st" st] d by simp
  then show ?thesis using d by (cases x) (simp_all add: cleanupPersistedFiles_def)
qed














end
